theory Spec2Isabelle
  imports Main "HOL-Library.Word"
begin

unbundle bit_operations_syntax

section \<open>Data model (layout.go)\<close>

text \<open>
  \<^verbatim>\<open>SplitType\<close> is the Go enumeration \<^verbatim>\<open>SplitNone | SplitHorizontal | SplitVertical\<close>;
  \<^verbatim>\<open>LayoutNode\<close> is the struct with its seven fields, the children slice being a list.
  Go's \<^verbatim>\<open>int\<close> is the 64-bit two's complement integer: values are kept as \<open>int\<close> and
  every arithmetic operation is followed by the wrap-around \<open>wrap64\<close>.
\<close>

datatype SplitType = SplitNone | SplitHorizontal | SplitVertical

datatype LayoutNode =
  LayoutNode (Width: int) (Height: int) (X: int) (Y: int) (PaneID: int)
    (SplitType: SplitType) (Children: "LayoutNode list")

definition wrap64 :: "int \<Rightarrow> int" where
  "wrap64 i = (i + 2 ^ 63) mod 2 ^ 64 - 2 ^ 63"

definition add64 :: "int \<Rightarrow> int \<Rightarrow> int" where
  "add64 a b = wrap64 (a + b)"

definition sub64 :: "int \<Rightarrow> int \<Rightarrow> int" where
  "sub64 a b = wrap64 (a - b)"

definition mul64 :: "int \<Rightarrow> int \<Rightarrow> int" where
  "mul64 a b = wrap64 (a * b)"

text \<open>Go's \<^verbatim>\<open>/\<close> truncates towards zero; every divisor in this program is positive.\<close>

definition quot64 :: "int \<Rightarrow> int \<Rightarrow> int" where
  "quot64 a b = wrap64 (sgn a * sgn b * (\<bar>a\<bar> div \<bar>b\<bar>))"

section \<open>Formatting and reading integers (fmt, strconv)\<close>

definition digitChar :: "nat \<Rightarrow> char" where
  "digitChar d = ''0123456789abcdef'' ! d"

fun decOfNat :: "nat \<Rightarrow> string" where
  "decOfNat n = (if n < 10 then [digitChar n] else decOfNat (n div 10) @ [digitChar (n mod 10)])"

declare decOfNat.simps [simp del]

fun hexOfNat :: "nat \<Rightarrow> string" where
  "hexOfNat n = (if n < 16 then [digitChar n] else hexOfNat (n div 16) @ [digitChar (n mod 16)])"

declare hexOfNat.simps [simp del]

text \<open>\<^verbatim>\<open>%d\<close> of an \<^verbatim>\<open>int\<close>.\<close>

definition fmt_d :: "int \<Rightarrow> string" where
  "fmt_d i = (if i < 0 then CHR ''-'' # decOfNat (nat (- i)) else decOfNat (nat i))"

text \<open>\<^verbatim>\<open>%04x\<close> of a \<^verbatim>\<open>uint16\<close>: lowercase hexadecimal, padded with zeros to width 4.\<close>

definition fmt_04x :: "16 word \<Rightarrow> string" where
  "fmt_04x w = (let ds = hexOfNat (unat w) in replicate (4 - length ds) (CHR ''0'') @ ds)"

section \<open>Checksum and encoder\<close>

text \<open>
  The loop of \<^verbatim>\<open>calculateChecksum\<close>:
  \<^verbatim>\<open>csum = (csum >> 1) + ((csum & 1) << 15); csum += uint16(s[i])\<close>.
\<close>

fun csumLoop :: "string \<Rightarrow> 16 word \<Rightarrow> 16 word" where
  "csumLoop [] csum = csum"
| "csumLoop (c # cs) csum =
     csumLoop cs ((drop_bit 1 csum + push_bit 15 (csum AND 1)) + of_nat (of_char c))"

definition calculateChecksum :: "string \<Rightarrow> string" where
  "calculateChecksum s = fmt_04x (csumLoop s 0)"

fun joinComma :: "string list \<Rightarrow> string" where
  "joinComma [] = []"
| "joinComma [s] = s"
| "joinComma (s # t # ts) = s @ CHR '','' # joinComma (t # ts)"

fun buildNodeString :: "LayoutNode \<Rightarrow> string" where
  "buildNodeString (LayoutNode w h x y pid st cs) =
     (let base = fmt_d w @ ''x'' @ fmt_d h @ '','' @ fmt_d x @ '','' @ fmt_d y in
      case st of
        SplitNone \<Rightarrow> base @ '','' @ fmt_d pid
      | SplitHorizontal \<Rightarrow> base @ ''{'' @ joinComma (map buildNodeString cs) @ ''}''
      | SplitVertical \<Rightarrow> base @ ''['' @ joinComma (map buildNodeString cs) @ '']'')"

definition BuildLayout :: "LayoutNode \<Rightarrow> string" where
  "BuildLayout node = (let body = buildNodeString node in calculateChecksum body @ '','' @ body)"

text \<open>The checksum as the specification words it: rotate right by one bit, then add the byte.\<close>

definition checksum_spec :: "string \<Rightarrow> 16 word" where
  "checksum_spec s = foldl (\<lambda>acc c. word_rotr 1 acc + of_nat (of_char c)) 0 s"


text \<open>The same step on natural numbers, with the 16-bit wrap-around written out.\<close>

definition spec_step :: "nat \<Rightarrow> nat \<Rightarrow> nat" where
  "spec_step acc b = (acc div 2 + (acc mod 2) * 2 ^ 15 + b) mod 2 ^ 16"

section \<open>Tree helpers\<close>

text \<open>
  \<^verbatim>\<open>containsPane\<close> compares the \<^verbatim>\<open>PaneID\<close> field of every node, split nodes included
  (the parser gives them \<open>-1\<close>).
\<close>

fun containsPane :: "LayoutNode \<Rightarrow> int \<Rightarrow> bool" where
  "containsPane (LayoutNode w h x y pid st cs) paneID =
     (if pid = paneID then True else list_ex (\<lambda>c. containsPane c paneID) cs)"

text \<open>The count of a tree is far below \<open>2^63\<close>, so the sum is taken in \<open>int\<close>.\<close>

fun countPanes :: "LayoutNode \<Rightarrow> int" where
  "countPanes (LayoutNode w h x y pid st cs) =
     (if st = SplitNone then 1 else sum_list (map countPanes cs))"

fun copyLayoutNode :: "LayoutNode \<Rightarrow> LayoutNode" where
  "copyLayoutNode (LayoutNode w h x y pid st cs) =
     LayoutNode w h x y pid st (map copyLayoutNode cs)"

text \<open>
  The search loops \<^verbatim>\<open>for i, child := range ... { if containsPane(child, id) { idx = i; break } }\<close>:
  the first index whose subtree holds the pane; \<open>None\<close> is the source's \<open>-1\<close>.
\<close>

fun findActive :: "LayoutNode list \<Rightarrow> int \<Rightarrow> nat \<Rightarrow> nat option" where
  "findActive [] paneID i = None"
| "findActive (c # cs) paneID i =
     (if containsPane c paneID then Some i else findActive cs paneID (Suc i))"

section \<open>Geometry transformer\<close>

text \<open>
  \<^verbatim>\<open>applyHorizontalZoom\<close> and \<^verbatim>\<open>applyVerticalZoom\<close> run the same three loops, one on
  widths and X, the other on heights and Y. The loops are written once, over the list of the
  children's sizes on the axis: \<open>otherSize\<close> is the loop that sums the sizes of the
  children other than the active one, \<open>distribute\<close> the loop that fills \<^verbatim>\<open>newWidths\<close>
  and \<^verbatim>\<open>widthUsed\<close>, and \<open>zoomSizes\<close> the body up to the rounding adjustment.
\<close>

fun otherSize :: "int list \<Rightarrow> nat \<Rightarrow> nat \<Rightarrow> int \<Rightarrow> int" where
  "otherSize [] activeIdx i acc = acc"
| "otherSize (w # ws) activeIdx i acc =
     otherSize ws activeIdx (Suc i) (if i \<noteq> activeIdx then add64 acc w else acc)"

definition share :: "int \<Rightarrow> int \<Rightarrow> int \<Rightarrow> int \<Rightarrow> int \<Rightarrow> bool \<Rightarrow> int" where
  "share w target other remaining n active =
     (if active then target
      else if other > 0 then quot64 (mul64 w remaining) other
      else quot64 remaining (sub64 n 1))"

fun distribute ::
  "int list \<Rightarrow> nat \<Rightarrow> int \<Rightarrow> int \<Rightarrow> int \<Rightarrow> int \<Rightarrow> nat \<Rightarrow> int list \<Rightarrow> int
     \<Rightarrow> int list \<times> int" where
  "distribute [] activeIdx target other remaining n i new used = (new, used)"
| "distribute (w # ws) activeIdx target other remaining n i new used =
     (let v = share w target other remaining n (i = activeIdx)
      in distribute ws activeIdx target other remaining n (Suc i) (new @ [v]) (add64 used v))"

definition zoomSizes :: "int \<Rightarrow> int list \<Rightarrow> nat \<Rightarrow> int \<Rightarrow> int list" where
  "zoomSizes nodeSize sizes activeIdx zoomPercent =
     (let n = int (length sizes);
          borders = sub64 n 1;
          available = sub64 nodeSize borders;
          target = quot64 (mul64 available zoomPercent) 100;
          other = otherSize sizes activeIdx 0 0;
          remaining = sub64 available target;
          (new, used) = distribute sizes activeIdx target other remaining n 0 [] 0
      in if used \<noteq> available
         then new[activeIdx := add64 (new ! activeIdx) (sub64 available used)]
         else new)"

fun updateChildWidths :: "LayoutNode \<Rightarrow> int \<Rightarrow> LayoutNode" where
  "updateChildWidths (LayoutNode w h x y pid st cs) width =
     LayoutNode width h x y pid st
       (if st = SplitVertical then map (\<lambda>c. updateChildWidths c width) cs else cs)"

fun updateChildHeights :: "LayoutNode \<Rightarrow> int \<Rightarrow> LayoutNode" where
  "updateChildHeights (LayoutNode w h x y pid st cs) height =
     LayoutNode w height x y pid st
       (if st = SplitHorizontal then map (\<lambda>c. updateChildHeights c height) cs else cs)"

text \<open>
  The last loop of each function: the child takes its new size and position, its descendants
  are updated, and the position moves on by the size and one border cell.
\<close>

fun placeWidths :: "LayoutNode list \<Rightarrow> int list \<Rightarrow> int \<Rightarrow> LayoutNode list" where
  "placeWidths (LayoutNode w h x y pid st cs # rest) (nw # nws) currentX =
     updateChildWidths (LayoutNode nw h currentX y pid st cs) nw
       # placeWidths rest nws (add64 currentX (add64 nw 1))"
| "placeWidths children nws currentX = children"

fun placeHeights :: "LayoutNode list \<Rightarrow> int list \<Rightarrow> int \<Rightarrow> LayoutNode list" where
  "placeHeights (LayoutNode w h x y pid st cs # rest) (nh # nhs) currentY =
     updateChildHeights (LayoutNode w nh x currentY pid st cs) nh
       # placeHeights rest nhs (add64 currentY (add64 nh 1))"
| "placeHeights children nhs currentY = children"

fun applyHorizontalZoom :: "LayoutNode \<Rightarrow> nat \<Rightarrow> int \<Rightarrow> LayoutNode" where
  "applyHorizontalZoom (LayoutNode w h x y pid st cs) activeIdx zoomPercent =
     (if length cs \<le> 1 then LayoutNode w h x y pid st cs
      else LayoutNode w h x y pid st
             (placeWidths cs (zoomSizes w (map Width cs) activeIdx zoomPercent) x))"

fun applyVerticalZoom :: "LayoutNode \<Rightarrow> nat \<Rightarrow> int \<Rightarrow> LayoutNode" where
  "applyVerticalZoom (LayoutNode w h x y pid st cs) activeIdx zoomPercent =
     (if length cs \<le> 1 then LayoutNode w h x y pid st cs
      else LayoutNode w h x y pid st
             (placeHeights cs (zoomSizes h (map Height cs) activeIdx zoomPercent) y))"

text \<open>The dispatch on the split type, shared by \<^verbatim>\<open>ApplyZoomToLayout\<close> and \<^verbatim>\<open>applyNestedZoom\<close>.\<close>

definition zoomBySplit :: "LayoutNode \<Rightarrow> nat \<Rightarrow> int \<Rightarrow> LayoutNode" where
  "zoomBySplit node activeIdx zoomPercent =
     (if SplitType node = SplitHorizontal then applyHorizontalZoom node activeIdx zoomPercent
      else if SplitType node = SplitVertical then applyVerticalZoom node activeIdx zoomPercent
      else node)"

definition ApplyZoomToLayout :: "LayoutNode \<Rightarrow> int \<Rightarrow> int \<Rightarrow> LayoutNode" where
  "ApplyZoomToLayout node activePaneID zoomPercent =
     (let result = copyLayoutNode node in
      case findActive (Children result) activePaneID 0 of
        None \<Rightarrow> result
      | Some activeChildIdx \<Rightarrow> zoomBySplit result activeChildIdx zoomPercent)"

text \<open>The number of nodes of a tree, the measure of \<open>applyNestedZoom\<close>.\<close>

fun nodes :: "LayoutNode \<Rightarrow> nat" where
  "nodes (LayoutNode w h x y pid st cs) = Suc (sum_list (map nodes cs))"

subsection \<open>The nested zoom and its termination\<close>

lemma nodes_updateChildWidths: "nodes (updateChildWidths c w) = nodes c"
  by (induction c w rule: updateChildWidths.induct) (simp add: map_idI cong: map_cong)

lemma nodes_updateChildHeights: "nodes (updateChildHeights c h) = nodes c"
  by (induction c h rule: updateChildHeights.induct) (simp add: map_idI cong: map_cong)

lemma nodes_placeWidths: "map nodes (placeWidths cs nws cur) = map nodes cs"
  by (induction cs nws cur rule: placeWidths.induct)
    (simp_all add: nodes_updateChildWidths del: updateChildWidths.simps)

lemma nodes_placeHeights: "map nodes (placeHeights cs nhs cur) = map nodes cs"
  by (induction cs nhs cur rule: placeHeights.induct)
    (simp_all add: nodes_updateChildHeights del: updateChildHeights.simps)

lemma nodes_zoomBySplit: "nodes (zoomBySplit c j z) = nodes c"
  by (cases c) (simp add: zoomBySplit_def nodes_placeWidths nodes_placeHeights)

lemma findActive_range: "findActive cs p k = Some i \<Longrightarrow> k \<le> i \<and> i - k < length cs"
  by (induction cs p k rule: findActive.induct) (auto split: if_splits)

lemma nodes_child: "i < length (Children node) \<Longrightarrow> nodes (Children node ! i) < nodes node"
  by (cases node) (simp add: less_Suc_eq_le member_le_sum_list)

text \<open>
  \<^verbatim>\<open>applyNestedZoom\<close> works in place on the tree that \<^verbatim>\<open>ApplyZoomToLayout\<close> returned; here
  it returns the updated node. It stops at the first child that holds the pane.
\<close>

function applyNestedZoom :: "LayoutNode \<Rightarrow> int \<Rightarrow> int \<Rightarrow> LayoutNode" where
  "applyNestedZoom node activePaneID zoomPercent =
     (case findActive (Children node) activePaneID 0 of
        None \<Rightarrow> node
      | Some i \<Rightarrow>
          (let child = Children node ! i in
           if length (Children child) > 1 then
             (case findActive (Children child) activePaneID 0 of
                None \<Rightarrow> node
              | Some activeGrandchildIdx \<Rightarrow>
                  LayoutNode (Width node) (Height node) (X node) (Y node) (PaneID node)
                    (SplitType node)
                    ((Children node)
                       [i := applyNestedZoom (zoomBySplit child activeGrandchildIdx zoomPercent)
                               activePaneID zoomPercent]))
           else node))"
  by pat_completeness auto
termination
proof (relation "measure (\<lambda>(node, p, z). nodes node)")
  show "wf (measure (\<lambda>(node, p, z). nodes node))" by simp
next
  fix node :: LayoutNode and activePaneID zoomPercent :: int and i child j
  assume "findActive (Children node) activePaneID 0 = Some i" and "child = Children node ! i"
  then show "((zoomBySplit child j zoomPercent, activePaneID, zoomPercent),
               node, activePaneID, zoomPercent) \<in> measure (\<lambda>(node, p, z). nodes node)"
    using findActive_range[of "Children node" activePaneID 0 i] nodes_child[of i node]
    by (simp add: nodes_zoomBySplit)
qed

declare applyNestedZoom.simps [simp del]

text \<open>The zoom transform of \<^verbatim>\<open>ApplyZoom\<close>: the root level, then the nested levels.\<close>

definition zoomTransform :: "LayoutNode \<Rightarrow> int \<Rightarrow> int \<Rightarrow> LayoutNode" where
  "zoomTransform node activePaneID zoomPercent =
     applyNestedZoom (ApplyZoomToLayout node activePaneID zoomPercent) activePaneID zoomPercent"

text \<open>Geometry erased: what is left is the shape, the split kinds and the pane ids.\<close>

fun skeleton :: "LayoutNode \<Rightarrow> LayoutNode" where
  "skeleton (LayoutNode w h x y pid st cs) = LayoutNode 0 0 0 0 pid st (map skeleton cs)"

text \<open>
  Size conservation at every split node: the children's sizes on the split axis and one
  border cell per gap add up to the node's size.
\<close>

fun conserved :: "LayoutNode \<Rightarrow> bool" where
  "conserved (LayoutNode w h x y pid st cs) =
     ((if st = SplitHorizontal then sum_list (map Width cs) + (int (length cs) - 1) = w
       else if st = SplitVertical then sum_list (map Height cs) + (int (length cs) - 1) = h
       else True)
      \<and> list_all conserved cs)"

section \<open>Decoder\<close>

text \<open>
  \<^verbatim>\<open>strconv.Atoi\<close>: an optional sign, then one or more decimal digits, and the value must fit
  the 64-bit \<^verbatim>\<open>int\<close>. The source only tests whether the error is \<^verbatim>\<open>nil\<close>.
\<close>

definition isDigit :: "char \<Rightarrow> bool" where
  "isDigit c = (c \<in> set ''0123456789'')"

definition digitVal :: "char \<Rightarrow> nat" where
  "digitVal c = of_char c - 48"

fun readDigits :: "string \<Rightarrow> nat \<Rightarrow> nat option" where
  "readDigits [] acc = Some acc"
| "readDigits (c # cs) acc =
     (if isDigit c then readDigits cs (acc * 10 + digitVal c) else None)"

definition inInt64 :: "int \<Rightarrow> bool" where
  "inInt64 i = (- (2 ^ 63) \<le> i \<and> i < 2 ^ 63)"

definition Atoi :: "string \<Rightarrow> int option" where
  "Atoi s =
     (let neg = (s \<noteq> [] \<and> hd s = CHR ''-'');
          ds = (if s \<noteq> [] \<and> (hd s = CHR ''-'' \<or> hd s = CHR ''+'') then tl s else s)
      in if ds = [] then None
         else case readDigits ds 0 of
                None \<Rightarrow> None
              | Some n \<Rightarrow>
                  (let v = (if neg then - int n else int n)
                   in if inInt64 v then Some v else None))"

datatype parse_error =
    NoChecksumSeparator
  | NoXInDimensions
  | InvalidWidth
  | NoCommaAfterHeight
  | InvalidHeight
  | NoCommaAfterX
  | InvalidX
  | InvalidY
  | InvalidPaneID
  | UnexpectedCharacter char

text \<open>
  \<^verbatim>\<open>idx := strings.Index(s, sep)\<close> followed by \<^verbatim>\<open>s[:idx]\<close> and \<^verbatim>\<open>s[idx+1:]\<close>: the text
  before the first separator and the text after it, \<open>None\<close> when \<^verbatim>\<open>idx == -1\<close>.
\<close>

fun cut :: "char \<Rightarrow> string \<Rightarrow> (string \<times> string) option" where
  "cut sep [] = None"
| "cut sep (c # cs) =
     (if c = sep then Some ([], cs)
      else case cut sep cs of None \<Rightarrow> None | Some (b, a) \<Rightarrow> Some (c # b, a))"

text \<open>
  The two scanning loops \<^verbatim>\<open>for i, c := range s { if c == ... { endIdx = i; break } }\<close>:
  the text before the first stop character and the text from it on. The stop characters are
  ASCII, so scanning bytes finds the same index as scanning runes.
\<close>

definition isYStop :: "char \<Rightarrow> bool" where
  "isYStop c = (c = CHR '','' \<or> c = CHR ''{'' \<or> c = CHR ''['' \<or> c = CHR ''}'' \<or> c = CHR '']'')"

definition isIdStop :: "char \<Rightarrow> bool" where
  "isIdStop c = (c = CHR '','' \<or> c = CHR ''}'' \<or> c = CHR '']'')"

definition scanTo :: "(char \<Rightarrow> bool) \<Rightarrow> string \<Rightarrow> string \<times> string" where
  "scanTo stop s = (takeWhile (\<lambda>c. \<not> stop c) s, dropWhile (\<lambda>c. \<not> stop c) s)"

text \<open>The first half of \<^verbatim>\<open>parseNode\<close>: width, height, x and y, and the text that follows.\<close>

definition parseGeometry :: "string \<Rightarrow> parse_error + (int \<times> int \<times> int \<times> int \<times> string)" where
  "parseGeometry s =
     (case cut (CHR ''x'') s of
        None \<Rightarrow> Inl NoXInDimensions
      | Some (ws, s1) \<Rightarrow>
     (case Atoi ws of
        None \<Rightarrow> Inl InvalidWidth
      | Some width \<Rightarrow>
     (case cut (CHR '','') s1 of
        None \<Rightarrow> Inl NoCommaAfterHeight
      | Some (hs, s2) \<Rightarrow>
     (case Atoi hs of
        None \<Rightarrow> Inl InvalidHeight
      | Some height \<Rightarrow>
     (case cut (CHR '','') s2 of
        None \<Rightarrow> Inl NoCommaAfterX
      | Some (xs, s3) \<Rightarrow>
     (case Atoi xs of
        None \<Rightarrow> Inl InvalidX
      | Some x \<Rightarrow>
     (case Atoi (fst (scanTo isYStop s3)) of
        None \<Rightarrow> Inl InvalidY
      | Some y \<Rightarrow> Inr (width, height, x, y, snd (scanTo isYStop s3)))))))))"

text \<open>\<^verbatim>\<open>if len(s) > 0 && s[0] == c { s = s[1:] }\<close>\<close>

fun skipChar :: "char \<Rightarrow> string \<Rightarrow> string" where
  "skipChar c [] = []"
| "skipChar c (d # ds) = (if d = c then ds else d # ds)"

text \<open>
  \<^verbatim>\<open>parseNode\<close> and the loop of \<^verbatim>\<open>parseChildren\<close> call each other on the text that is left.
  Both take fuel, one unit per call; \<open>None\<close> means that the fuel ran out, \<open>Some (Inl e)\<close> is
  the source's error and \<open>Some (Inr (v, rest))\<close> its result with the unparsed text.
\<close>

fun parseNode :: "nat \<Rightarrow> string \<Rightarrow> (parse_error + LayoutNode \<times> string) option"
  and parseChildren ::
    "nat \<Rightarrow> string \<Rightarrow> char \<Rightarrow> LayoutNode list \<Rightarrow> (parse_error + LayoutNode list \<times> string) option"
where
  "parseNode 0 s = None"
| "parseNode (Suc fuel) s =
     (case parseGeometry s of
        Inl e \<Rightarrow> Some (Inl e)
      | Inr (width, height, x, y, s4) \<Rightarrow>
          (case s4 of
             [] \<Rightarrow> Some (Inr (LayoutNode width height x y (- 1) SplitNone [], []))
           | c # s5 \<Rightarrow>
               if c = CHR ''{'' then
                 (case parseChildren fuel s5 (CHR ''}'') [] of
                    None \<Rightarrow> None
                  | Some (Inl e) \<Rightarrow> Some (Inl e)
                  | Some (Inr (children, rest)) \<Rightarrow>
                      Some (Inr (LayoutNode width height x y (- 1) SplitHorizontal children, rest)))
               else if c = CHR ''['' then
                 (case parseChildren fuel s5 (CHR '']'') [] of
                    None \<Rightarrow> None
                  | Some (Inl e) \<Rightarrow> Some (Inl e)
                  | Some (Inr (children, rest)) \<Rightarrow>
                      Some (Inr (LayoutNode width height x y (- 1) SplitVertical children, rest)))
               else if c = CHR '','' then
                 (case Atoi (fst (scanTo isIdStop s5)) of
                    None \<Rightarrow> Some (Inl InvalidPaneID)
                  | Some paneID \<Rightarrow>
                      Some (Inr (LayoutNode width height x y paneID SplitNone [],
                                 snd (scanTo isIdStop s5))))
               else if c = CHR ''}'' \<or> c = CHR '']'' then
                 Some (Inr (LayoutNode width height x y (- 1) SplitNone [], c # s5))
               else Some (Inl (UnexpectedCharacter c))))"
| "parseChildren 0 s endChar children = None"
| "parseChildren (Suc fuel) s endChar children =
     (if s \<noteq> [] \<and> hd s \<noteq> endChar then
        (case parseNode fuel s of
           None \<Rightarrow> None
         | Some (Inl e) \<Rightarrow> Some (Inl e)
         | Some (Inr (child, rest)) \<Rightarrow>
             parseChildren fuel (skipChar (CHR '','') rest) endChar (children @ [child]))
      else Some (Inr (children, skipChar endChar s)))"

text \<open>
  \<^verbatim>\<open>ParseLayout\<close> drops the checksum field and parses one node; what follows the node is
  ignored. The fuel is more than the parser can use on the text.
\<close>

definition ParseLayout :: "string \<Rightarrow> (parse_error + LayoutNode) option" where
  "ParseLayout layout =
     (case cut (CHR '','') layout of
        None \<Rightarrow> Some (Inl NoChecksumSeparator)
      | Some (checksum, rest) \<Rightarrow>
          (case parseNode (2 * length rest + 2) rest of
             None \<Rightarrow> None
           | Some (Inl e) \<Rightarrow> Some (Inl e)
           | Some (Inr (node, unparsed)) \<Rightarrow> Some (Inr node)))"

text \<open>
  What every decoded tree looks like: the numbers fit the 64-bit \<^verbatim>\<open>int\<close>, a node without
  split has no children, and a split node has the pane id \<open>-1\<close> it was created with.
\<close>

fun parserShaped :: "LayoutNode \<Rightarrow> bool" where
  "parserShaped (LayoutNode w h x y pid st cs) =
     (inInt64 w \<and> inInt64 h \<and> inInt64 x \<and> inInt64 y \<and> inInt64 pid
      \<and> (if st = SplitNone then cs = [] else pid = - 1)
      \<and> list_all parserShaped cs)"

text \<open>The pane ids of the leaves, from left to right.\<close>

fun leafIDs :: "LayoutNode \<Rightarrow> int list" where
  "leafIDs (LayoutNode w h x y pid st cs) =
     (if st = SplitNone then [pid] else concat (map leafIDs cs))"


section \<open>The host and the orchestration (tmux.go, state.go, layout.go)\<close>

text \<open>
  Every call of the program to tmux goes through \<^verbatim>\<open>TmuxCmd\<close> (the trimmed output or an
  error) or \<^verbatim>\<open>TmuxCmdNoOutput\<close> (an error or none); the state file is written by
  \<^verbatim>\<open>SaveState\<close> and removed by \<^verbatim>\<open>ClearState\<close>. The environment of one invocation is a
  record of these four: what tmux answers to each argument list and whether each command
  and file operation succeeds. The functions below return their result together with the
  list of effects they caused, in order: the tmux commands run through
  \<^verbatim>\<open>TmuxCmdNoOutput\<close> and the file operations. Queries through \<^verbatim>\<open>TmuxCmd\<close> change
  nothing and are not listed; the debug log is left out.
\<close>

datatype app_error = TmuxError string | AtoiError | DecodeError parse_error | FileError string

record State =
  Enabled :: bool
  Session :: string
  Window :: string
  Snapshot :: string

record Env =
  TmuxCmd :: "string list \<Rightarrow> app_error + string"
  TmuxCmdNoOutput :: "string list \<Rightarrow> app_error option"
  SaveState :: "State \<Rightarrow> app_error option"
  ClearState :: "app_error option"

datatype effect = Tmux "string list" | WriteState State | RemoveState

record PaneInfo =
  ID :: string
  Index :: int
  PaneWidth :: int
  PaneHeight :: int
  Left :: int
  Top :: int
  Active :: bool

text \<open>
  The value that \<^verbatim>\<open>strconv.Atoi\<close> returns beside its error, for the calls that drop the
  error: 0 on a syntax error, the nearest bound on a range error.
\<close>

definition AtoiValue :: "string \<Rightarrow> int" where
  "AtoiValue s =
     (let neg = (s \<noteq> [] \<and> hd s = CHR ''-'');
          ds = (if s \<noteq> [] \<and> (hd s = CHR ''-'' \<or> hd s = CHR ''+'') then tl s else s)
      in if ds = [] then 0
         else case readDigits ds 0 of
                None \<Rightarrow> 0
              | Some n \<Rightarrow>
                  (let v = (if neg then - int n else int n)
                   in if v < - (2 ^ 63) then - (2 ^ 63)
                      else if 2 ^ 63 \<le> v then 2 ^ 63 - 1 else v))"

definition GetCurrentSession :: "Env \<Rightarrow> app_error + string" where
  "GetCurrentSession env = TmuxCmd env [''display-message'', ''-p'', ''#{session_name}'']"

definition GetCurrentWindow :: "Env \<Rightarrow> app_error + string" where
  "GetCurrentWindow env = TmuxCmd env [''display-message'', ''-p'', ''#{window_index}'']"

definition GetCurrentPane :: "Env \<Rightarrow> app_error + string" where
  "GetCurrentPane env = TmuxCmd env [''display-message'', ''-p'', ''#{pane_id}'']"

definition GetActivePaneID :: "Env \<Rightarrow> app_error + int" where
  "GetActivePaneID env =
     (case GetCurrentPane env of
        Inl e \<Rightarrow> Inl e
      | Inr paneID \<Rightarrow>
          (case Atoi (if paneID \<noteq> [] \<and> hd paneID = CHR ''%'' then tl paneID else paneID) of
             None \<Rightarrow> Inl AtoiError
           | Some n \<Rightarrow> Inr n))"

definition GetWindowLayout :: "Env \<Rightarrow> app_error + string" where
  "GetWindowLayout env = TmuxCmd env [''display-message'', ''-p'', ''#{window_layout}'']"

definition GetPaneCount :: "Env \<Rightarrow> app_error + int" where
  "GetPaneCount env =
     (case TmuxCmd env [''display-message'', ''-p'', ''#{window_panes}''] of
        Inl e \<Rightarrow> Inl e
      | Inr out \<Rightarrow> (case Atoi out of None \<Rightarrow> Inl AtoiError | Some n \<Rightarrow> Inr n))"

definition GetWindowSize :: "Env \<Rightarrow> app_error + int \<times> int" where
  "GetWindowSize env =
     (case TmuxCmd env [''display-message'', ''-p'', ''#{window_width}''] of
        Inl e \<Rightarrow> Inl e
      | Inr w \<Rightarrow>
     (case TmuxCmd env [''display-message'', ''-p'', ''#{window_height}''] of
        Inl e \<Rightarrow> Inl e
      | Inr h \<Rightarrow>
     (case Atoi w of
        None \<Rightarrow> Inl AtoiError
      | Some width \<Rightarrow>
     (case Atoi h of
        None \<Rightarrow> Inl AtoiError
      | Some height \<Rightarrow> Inr (width, height)))))"

definition SelectLayout :: "Env \<Rightarrow> string \<Rightarrow> app_error option \<times> effect list" where
  "SelectLayout env layout =
     (TmuxCmdNoOutput env [''select-layout'', layout], [Tmux [''select-layout'', layout]])"

definition DisplayMessage :: "Env \<Rightarrow> string \<Rightarrow> app_error option \<times> effect list" where
  "DisplayMessage env msg =
     (TmuxCmdNoOutput env [''display-message'', msg], [Tmux [''display-message'', msg]])"

definition ResizePaneWidth :: "Env \<Rightarrow> string \<Rightarrow> int \<Rightarrow> app_error option \<times> effect list" where
  "ResizePaneWidth env paneID width =
     (TmuxCmdNoOutput env [''resize-pane'', ''-t'', paneID, ''-x'', fmt_d width],
      [Tmux [''resize-pane'', ''-t'', paneID, ''-x'', fmt_d width]])"

definition ResizePaneHeight :: "Env \<Rightarrow> string \<Rightarrow> int \<Rightarrow> app_error option \<times> effect list" where
  "ResizePaneHeight env paneID height =
     (TmuxCmdNoOutput env [''resize-pane'', ''-t'', paneID, ''-y'', fmt_d height],
      [Tmux [''resize-pane'', ''-t'', paneID, ''-y'', fmt_d height]])"

definition DefaultZoomPercent :: int where
  "DefaultZoomPercent = 65"

definition GetZoomPercent :: "Env \<Rightarrow> int" where
  "GetZoomPercent env =
     (case TmuxCmd env [''show-option'', ''-gqv'', ''@focus-zoom-percent''] of
        Inl e \<Rightarrow> DefaultZoomPercent
      | Inr out \<Rightarrow>
          if out = [] then DefaultZoomPercent
          else (case Atoi out of
                  None \<Rightarrow> DefaultZoomPercent
                | Some percent \<Rightarrow>
                    if percent < 10 \<or> percent > 95 then DefaultZoomPercent else percent))"

text \<open>\<^verbatim>\<open>strings.Split(s, sep)\<close> for a one-byte separator.\<close>

fun splitOn :: "char \<Rightarrow> string \<Rightarrow> string list" where
  "splitOn sep [] = [[]]"
| "splitOn sep (c # cs) =
     (if c = sep then [] # splitOn sep cs
      else (case splitOn sep cs of [] \<Rightarrow> [[c]] | p # ps \<Rightarrow> (c # p) # ps))"

definition paneOfLine :: "string \<Rightarrow> PaneInfo list" where
  "paneOfLine line =
     (if line = [] then []
      else (let parts = splitOn (CHR '':'') line in
            if length parts \<noteq> 7 then []
            else [\<lparr>ID = parts ! 0, Index = AtoiValue (parts ! 1),
                   PaneWidth = AtoiValue (parts ! 2), PaneHeight = AtoiValue (parts ! 3),
                   Left = AtoiValue (parts ! 4), Top = AtoiValue (parts ! 5),
                   Active = (parts ! 6 = ''1'')\<rparr>]))"

definition GetPanes :: "Env \<Rightarrow> app_error + PaneInfo list" where
  "GetPanes env =
     (case TmuxCmd env [''list-panes'', ''-F'',
         ''#{pane_id}:#{pane_index}:#{pane_width}:#{pane_height}:#{pane_left}:#{pane_top}:#{pane_active}''] of
        Inl e \<Rightarrow> Inl e
      | Inr out \<Rightarrow> Inr (concat (map paneOfLine (splitOn (CHR 10) out))))"

text \<open>
  \<^verbatim>\<open>findColumns\<close> and \<^verbatim>\<open>findRowsInColumn\<close> collect the panes in a Go map keyed by the
  left (top) offset and sort the groups by that key. The keys are distinct, so the sorted
  slice does not depend on the order in which the map is walked; the groups are kept here
  in a list in order of first appearance and sorted by key.
\<close>

record column =
  left :: int
  width :: int
  panes :: "PaneInfo list"

record row =
  top :: int
  height :: int
  rowPanes :: "PaneInfo list"

fun addToColumns :: "column list \<Rightarrow> PaneInfo \<Rightarrow> column list" where
  "addToColumns [] p = [\<lparr>left = Left p, width = PaneWidth p, panes = [p]\<rparr>]"
| "addToColumns (col # cols) p =
     (if left col = Left p
      then col\<lparr>panes := panes col @ [p],
               width := (if PaneWidth p > width col then PaneWidth p else width col)\<rparr> # cols
      else col # addToColumns cols p)"

definition findColumns :: "PaneInfo list \<Rightarrow> column list" where
  "findColumns ps = sort_key left (foldl addToColumns [] ps)"

fun addToRows :: "row list \<Rightarrow> PaneInfo \<Rightarrow> row list" where
  "addToRows [] p = [\<lparr>top = Top p, height = PaneHeight p, rowPanes = [p]\<rparr>]"
| "addToRows (r # rs) p =
     (if top r = Top p
      then r\<lparr>rowPanes := rowPanes r @ [p],
             height := (if PaneHeight p > height r then PaneHeight p else height r)\<rparr> # rs
      else r # addToRows rs p)"

definition findRowsInColumn :: "PaneInfo list \<Rightarrow> row list" where
  "findRowsInColumn columnPanes = sort_key top (foldl addToRows [] columnPanes)"

definition resizeColumnsProportionally ::
  "Env \<Rightarrow> column list \<Rightarrow> nat \<Rightarrow> int \<Rightarrow> effect list" where
  "resizeColumnsProportionally env columns activeIdx targetWidth =
     (if length columns \<le> 1 then []
      else (case panes (columns ! activeIdx) of
              [] \<Rightarrow> []
            | p # ps \<Rightarrow> snd (ResizePaneWidth env (ID p) targetWidth)))"

definition resizeRowsProportionally ::
  "Env \<Rightarrow> row list \<Rightarrow> nat \<Rightarrow> int \<Rightarrow> effect list" where
  "resizeRowsProportionally env rows activeIdx targetHeight =
     (if length rows \<le> 1 then []
      else (case rowPanes (rows ! activeIdx) of
              [] \<Rightarrow> []
            | p # ps \<Rightarrow> snd (ResizePaneHeight env (ID p) targetHeight)))"

text \<open>The first index at which the predicate holds, as the search loops with \<^verbatim>\<open>break\<close> find it.\<close>

fun firstIndex :: "('a \<Rightarrow> bool) \<Rightarrow> 'a list \<Rightarrow> nat \<Rightarrow> nat option" where
  "firstIndex P [] i = None"
| "firstIndex P (x # xs) i = (if P x then Some i else firstIndex P xs (Suc i))"

definition applyProportionalZoom ::
  "Env \<Rightarrow> PaneInfo list \<Rightarrow> PaneInfo \<Rightarrow> int \<Rightarrow> int \<Rightarrow> int \<Rightarrow> effect list" where
  "applyProportionalZoom env ps active winWidth winHeight zoomPercent =
     (let columns = findColumns ps;
          targetWidth = quot64 (mul64 winWidth zoomPercent) 100;
          activeCol = firstIndex (\<lambda>col. left col = Left active) columns 0
      in case activeCol of
           None \<Rightarrow> []
         | Some activeColIdx \<Rightarrow>
             (if length columns > 1
              then resizeColumnsProportionally env columns activeColIdx targetWidth else [])
             @ (let activeColumn = columns ! activeColIdx in
                if length (panes activeColumn) > 1 then
                  (let rows = findRowsInColumn (panes activeColumn);
                       activeRow = firstIndex (\<lambda>r. top r = Top active) rows 0;
                       colHeight =
                         add64 (foldl (\<lambda>h p. add64 h (PaneHeight p)) 0 (panes activeColumn))
                           (int (length rows) - 1);
                       targetHeight = quot64 (mul64 colHeight zoomPercent) 100
                   in case activeRow of
                        None \<Rightarrow> []
                      | Some activeRowIdx \<Rightarrow>
                          if length rows > 1
                          then resizeRowsProportionally env rows activeRowIdx targetHeight
                          else [])
                else []))"

definition applyZoomFallback :: "Env \<Rightarrow> app_error option \<times> effect list" where
  "applyZoomFallback env =
     (case GetPanes env of
        Inl e \<Rightarrow> (Some e, [])
      | Inr ps \<Rightarrow>
     (case GetWindowSize env of
        Inl e \<Rightarrow> (Some e, [])
      | Inr (winWidth, winHeight) \<Rightarrow>
     (case find Active ps of
        None \<Rightarrow> (None, [])
      | Some activePane \<Rightarrow>
          (None, applyProportionalZoom env ps activePane winWidth winHeight
                   (GetZoomPercent env)))))"

definition CaptureSnapshot :: "Env \<Rightarrow> app_error + State" where
  "CaptureSnapshot env =
     (case GetCurrentSession env of
        Inl e \<Rightarrow> Inl e
      | Inr session \<Rightarrow>
     (case GetCurrentWindow env of
        Inl e \<Rightarrow> Inl e
      | Inr window \<Rightarrow>
     (case GetWindowLayout env of
        Inl e \<Rightarrow> Inl e
      | Inr layout \<Rightarrow>
          Inr \<lparr>Enabled = True, Session = session, Window = window, Snapshot = layout\<rparr>)))"

definition RestoreSnapshot :: "Env \<Rightarrow> State \<Rightarrow> app_error option \<times> effect list" where
  "RestoreSnapshot env state =
     (if Snapshot state = [] then (None, []) else SelectLayout env (Snapshot state))"

text \<open>
  The second half of \<^verbatim>\<open>ApplyZoom\<close>, from \<^verbatim>\<open>GetZoomPercent\<close> on: transform the tree, encode
  it and hand it to tmux; if tmux refuses, restore the snapshot and return the error.
\<close>

definition zoomAndSelect ::
  "Env \<Rightarrow> State \<Rightarrow> LayoutNode \<Rightarrow> int \<Rightarrow> effect list \<Rightarrow> app_error option \<times> effect list" where
  "zoomAndSelect env state layoutTree activePaneID done =
     (let zoomPercent = GetZoomPercent env;
          zoomedTree = ApplyZoomToLayout layoutTree activePaneID zoomPercent;
          zoomedTree = applyNestedZoom zoomedTree activePaneID zoomPercent;
          newLayout = BuildLayout zoomedTree
      in case SelectLayout env newLayout of
           (Some e, fx) \<Rightarrow> (Some e, done @ fx @ snd (RestoreSnapshot env state))
         | (None, fx) \<Rightarrow> (None, done @ fx))"

text \<open>
  \<^verbatim>\<open>ApplyZoom\<close>. A decoder that ran out of fuel would count as a failed decode; it never
  does.
\<close>

definition ApplyZoom :: "Env \<Rightarrow> State \<Rightarrow> app_error option \<times> effect list" where
  "ApplyZoom env state =
     (case GetPaneCount env of
        Inl e \<Rightarrow> (Some e, [])
      | Inr paneCount \<Rightarrow>
     if paneCount \<le> 1 then (None, [])
     else
     (case GetCurrentSession env of
        Inl e \<Rightarrow> (Some e, [])
      | Inr session \<Rightarrow>
     (case GetCurrentWindow env of
        Inl e \<Rightarrow> (Some e, [])
      | Inr window \<Rightarrow>
     if session \<noteq> Session state \<or> window \<noteq> Window state then (None, [])
     else
     (case GetActivePaneID env of
        Inl e \<Rightarrow> (Some e, [])
      | Inr activePaneID \<Rightarrow>
     (case ParseLayout (Snapshot state) of
        Some (Inr layoutTree) \<Rightarrow>
          if countPanes layoutTree \<noteq> paneCount then
            (case CaptureSnapshot env of
               Inl e \<Rightarrow> (Some e, [])
             | Inr newState \<Rightarrow>
            (case SaveState env newState of
               Some e \<Rightarrow> (Some e, [WriteState newState])
             | None \<Rightarrow>
            (case ParseLayout (Snapshot newState) of
               Some (Inr newTree) \<Rightarrow>
                 zoomAndSelect env (state\<lparr>Snapshot := Snapshot newState\<rparr>) newTree activePaneID
                   [WriteState newState]
             | Some (Inl e) \<Rightarrow> (Some (DecodeError e), [WriteState newState])
             | None \<Rightarrow> (Some (DecodeError NoChecksumSeparator), [WriteState newState]))))
          else zoomAndSelect env state layoutTree activePaneID []
      | _ \<Rightarrow>
          (case RestoreSnapshot env state of
             (Some e, fx) \<Rightarrow>
               (Some e, fx @ [RemoveState]
                  @ snd (DisplayMessage env ''Focus zoom: disabled (layout changed)''))
           | (None, fx) \<Rightarrow>
               (case applyZoomFallback env of (r, fx') \<Rightarrow> (r, fx @ fx'))))))))"

text \<open>\<^verbatim>\<open>cmdApply\<close> after \<^verbatim>\<open>LoadState\<close> has returned the state.\<close>

definition cmdApply :: "Env \<Rightarrow> State \<Rightarrow> app_error option \<times> effect list" where
  "cmdApply env state = (if \<not> Enabled state then (None, []) else ApplyZoom env state)"

text \<open>An environment and a state to run the orchestration on.\<close>

definition demoEnv :: "string \<Rightarrow> string \<Rightarrow> string \<Rightarrow> Env" where
  "demoEnv count sess win =
     \<lparr>TmuxCmd = (\<lambda>args.
          if args = [''display-message'', ''-p'', ''#{window_panes}''] then Inr count
          else if args = [''display-message'', ''-p'', ''#{session_name}''] then Inr sess
          else if args = [''display-message'', ''-p'', ''#{window_index}''] then Inr win
          else if args = [''display-message'', ''-p'', ''#{pane_id}''] then Inr ''%2''
          else Inl (TmuxError ''exit status 1'')),
       TmuxCmdNoOutput = (\<lambda>args. None),
       SaveState = (\<lambda>st. None),
       ClearState = None\<rparr>"

definition demoState :: State where
  "demoState = \<lparr>Enabled = True, Session = ''main'', Window = ''1'',
      Snapshot = ''1234,199x53,0,0{99x53,0,0,1,99x53,100,0,2}''\<rparr>"

subsection \<open>Quantities of the specification\<close>

text \<open>
  The size of a node along the split axis of the root, the space that is left after the
  borders, and the proportional share of a sibling, all in unbounded integers.
\<close>

definition axisSize :: "LayoutNode \<Rightarrow> LayoutNode \<Rightarrow> int" where
  "axisSize root c = (if SplitType root = SplitHorizontal then Width c else Height c)"

definition available :: "int \<Rightarrow> nat \<Rightarrow> int" where
  "available nodeSize count = nodeSize - (int count - 1)"

text \<open>The share of a sibling, without wrap-around.\<close>

definition siblingShare :: "int \<Rightarrow> int \<Rightarrow> int \<Rightarrow> int \<Rightarrow> int" where
  "siblingShare other remaining n w =
     (if other > 0 then (w * remaining) div other else remaining div (n - 1))"

text \<open>The layout of the tests.\<close>

definition exampleTree :: LayoutNode where
  "exampleTree = LayoutNode 255 61 0 0 (- 1) SplitHorizontal
         [LayoutNode 84 61 0 0 (- 1) SplitVertical
           [LayoutNode 84 30 0 0 26 SplitNone [], LayoutNode 84 30 0 31 41 SplitNone []],
          LayoutNode 85 61 85 0 36 SplitNone [],
          LayoutNode 84 61 171 0 42 SplitNone []]"

section \<open>The language of the decoder\<close>

text \<open>
  A description of the texts that the decoder accepts, and of those that it rejects, that does
  not mention \<open>parseNode\<close>: it is compared with the decoder in the section on what the decoder
  rejects. \<open>geometryFields s w h x y rest\<close>: the text \<open>s\<close> starts with a width up to the first
  \<^verbatim>\<open>x\<close>, a height and an x up to the next commas and a y up to the first delimiter, all four
  valid integers, and \<open>rest\<close> follows, empty or starting with the delimiter.
\<close>

definition geometryFields :: "string \<Rightarrow> int \<Rightarrow> int \<Rightarrow> int \<Rightarrow> int \<Rightarrow> string \<Rightarrow> bool" where
  "geometryFields s w h x y rest =
     (\<exists>ws hs xs ys.
        s = ws @ ''x'' @ hs @ '','' @ xs @ '','' @ ys @ rest
        \<and> CHR ''x'' \<notin> set ws \<and> CHR '','' \<notin> set hs \<and> CHR '','' \<notin> set xs
        \<and> list_all (\<lambda>c. \<not> isYStop c) ys \<and> (rest = [] \<or> isYStop (hd rest))
        \<and> Atoi ws = Some w \<and> Atoi hs = Some h \<and> Atoi xs = Some x \<and> Atoi ys = Some y)"

text \<open>
  \<open>lenientNode s t rest\<close>: a prefix of \<open>s\<close> is the text of the node \<open>t\<close>, and \<open>rest\<close> is left.
  \<open>lenientChildren e body cs rest\<close>: \<open>body\<close> starts with the texts of the children \<open>cs\<close>, up to
  the closing bracket \<open>e\<close> or the end of the text. The grammar is lenient where the source is:
  a list may end with the text (\<open>listEnds\<close>), the comma between two children may be missing
  (\<open>skipChar\<close> in \<open>listGoesOn\<close>), and a node may stop before a closing bracket that nothing
  opened (\<open>leafBeforeClose\<close>).
\<close>

inductive lenientNode :: "string \<Rightarrow> LayoutNode \<Rightarrow> string \<Rightarrow> bool"
  and lenientChildren :: "char \<Rightarrow> string \<Rightarrow> LayoutNode list \<Rightarrow> string \<Rightarrow> bool"
where
  leafAtEnd:
    "geometryFields s w h x y [] \<Longrightarrow> lenientNode s (LayoutNode w h x y (- 1) SplitNone []) []"
| leafBeforeClose:
    "geometryFields s w h x y (c # r) \<Longrightarrow> c = CHR ''}'' \<or> c = CHR '']'' \<Longrightarrow>
     lenientNode s (LayoutNode w h x y (- 1) SplitNone []) (c # r)"
| leafWithID:
    "geometryFields s w h x y (CHR '','' # ps @ r) \<Longrightarrow> list_all (\<lambda>c. \<not> isIdStop c) ps \<Longrightarrow>
     r = [] \<or> isIdStop (hd r) \<Longrightarrow> Atoi ps = Some paneID \<Longrightarrow>
     lenientNode s (LayoutNode w h x y paneID SplitNone []) r"
| widthSplit:
    "geometryFields s w h x y (CHR ''{'' # body) \<Longrightarrow> lenientChildren (CHR ''}'') body cs r \<Longrightarrow>
     lenientNode s (LayoutNode w h x y (- 1) SplitHorizontal cs) r"
| heightSplit:
    "geometryFields s w h x y (CHR ''['' # body) \<Longrightarrow> lenientChildren (CHR '']'') body cs r \<Longrightarrow>
     lenientNode s (LayoutNode w h x y (- 1) SplitVertical cs) r"
| listEnds:
    "body = [] \<or> hd body = e \<Longrightarrow> lenientChildren e body [] (skipChar e body)"
| listGoesOn:
    "body \<noteq> [] \<Longrightarrow> hd body \<noteq> e \<Longrightarrow> lenientNode body c rest \<Longrightarrow>
     lenientChildren e (skipChar (CHR '','') rest) cs r \<Longrightarrow> lenientChildren e body (c # cs) r"

text \<open>A layout text: anything without a comma, a comma, a node; what follows the node is not read.\<close>

definition lenientLayout :: "string \<Rightarrow> LayoutNode \<Rightarrow> bool" where
  "lenientLayout s t =
     (\<exists>checksum body unparsed.
        s = checksum @ '','' @ body \<and> CHR '','' \<notin> set checksum \<and> lenientNode body t unparsed)"

text \<open>
  The texts that are rejected, with the error. \<open>geometryError\<close>: the first of the four leading
  fields that is cut off by no separator, or that is not a valid integer.
\<close>

inductive geometryError :: "string \<Rightarrow> parse_error \<Rightarrow> bool" where
  noX:
    "CHR ''x'' \<notin> set s \<Longrightarrow> geometryError s NoXInDimensions"
| badWidth:
    "CHR ''x'' \<notin> set ws \<Longrightarrow> Atoi ws = None \<Longrightarrow>
     geometryError (ws @ ''x'' @ r) InvalidWidth"
| noCommaAfterHeight:
    "CHR ''x'' \<notin> set ws \<Longrightarrow> Atoi ws = Some w \<Longrightarrow> CHR '','' \<notin> set r \<Longrightarrow>
     geometryError (ws @ ''x'' @ r) NoCommaAfterHeight"
| badHeight:
    "CHR ''x'' \<notin> set ws \<Longrightarrow> Atoi ws = Some w \<Longrightarrow> CHR '','' \<notin> set hs \<Longrightarrow> Atoi hs = None \<Longrightarrow>
     geometryError (ws @ ''x'' @ hs @ '','' @ r) InvalidHeight"
| noCommaAfterX:
    "CHR ''x'' \<notin> set ws \<Longrightarrow> Atoi ws = Some w \<Longrightarrow> CHR '','' \<notin> set hs \<Longrightarrow> Atoi hs = Some h \<Longrightarrow>
     CHR '','' \<notin> set r \<Longrightarrow>
     geometryError (ws @ ''x'' @ hs @ '','' @ r) NoCommaAfterX"
| badX:
    "CHR ''x'' \<notin> set ws \<Longrightarrow> Atoi ws = Some w \<Longrightarrow> CHR '','' \<notin> set hs \<Longrightarrow> Atoi hs = Some h \<Longrightarrow>
     CHR '','' \<notin> set xs \<Longrightarrow> Atoi xs = None \<Longrightarrow>
     geometryError (ws @ ''x'' @ hs @ '','' @ xs @ '','' @ r) InvalidX"
| badY:
    "CHR ''x'' \<notin> set ws \<Longrightarrow> Atoi ws = Some w \<Longrightarrow> CHR '','' \<notin> set hs \<Longrightarrow> Atoi hs = Some h \<Longrightarrow>
     CHR '','' \<notin> set xs \<Longrightarrow> Atoi xs = Some x \<Longrightarrow>
     list_all (\<lambda>c. \<not> isYStop c) ys \<Longrightarrow> r = [] \<or> isYStop (hd r) \<Longrightarrow> Atoi ys = None \<Longrightarrow>
     geometryError (ws @ ''x'' @ hs @ '','' @ xs @ '','' @ ys @ r) InvalidY"

text \<open>
  \<open>nodeError s err\<close>: the node at the start of \<open>s\<close> is rejected with \<open>err\<close>, for its own fields
  or for a child. \<open>childrenError e body err\<close>: some child of the list is rejected, the first one
  (\<open>thisChild\<close>) or, after a well-formed child, a later one (\<open>laterChild\<close>).
\<close>

inductive nodeError :: "string \<Rightarrow> parse_error \<Rightarrow> bool"
  and childrenError :: "char \<Rightarrow> string \<Rightarrow> parse_error \<Rightarrow> bool"
where
  badGeometry:
    "geometryError s err \<Longrightarrow> nodeError s err"
| badPaneID:
    "geometryFields s w h x y (CHR '','' # ps @ r) \<Longrightarrow> list_all (\<lambda>c. \<not> isIdStop c) ps \<Longrightarrow>
     r = [] \<or> isIdStop (hd r) \<Longrightarrow> Atoi ps = None \<Longrightarrow> nodeError s InvalidPaneID"
| inWidthSplit:
    "geometryFields s w h x y (CHR ''{'' # body) \<Longrightarrow> childrenError (CHR ''}'') body err \<Longrightarrow>
     nodeError s err"
| inHeightSplit:
    "geometryFields s w h x y (CHR ''['' # body) \<Longrightarrow> childrenError (CHR '']'') body err \<Longrightarrow>
     nodeError s err"
| thisChild:
    "body \<noteq> [] \<Longrightarrow> hd body \<noteq> e \<Longrightarrow> nodeError body err \<Longrightarrow> childrenError e body err"
| laterChild:
    "body \<noteq> [] \<Longrightarrow> hd body \<noteq> e \<Longrightarrow> lenientNode body c rest \<Longrightarrow>
     childrenError e (skipChar (CHR '','') rest) err \<Longrightarrow> childrenError e body err"

definition layoutError :: "string \<Rightarrow> parse_error \<Rightarrow> bool" where
  "layoutError s err =
     ((CHR '','' \<notin> set s \<and> err = NoChecksumSeparator)
      \<or> (\<exists>checksum body.
            s = checksum @ '','' @ body \<and> CHR '','' \<notin> set checksum \<and> nodeError body err))"

section \<open>Checksum: the source's shifts are a rotation\<close>

lemma rotr1_shifts: "drop_bit 1 (w::16 word) + push_bit 15 (w AND 1) = word_rotr 1 w"
proof -
  have "drop_bit 1 w + push_bit 15 (w AND 1) = drop_bit 1 w OR push_bit 15 (w AND 1)"
    by (rule disjunctive_add_eq_or) (auto simp: bit_eq_iff bit_simps dest: bit_imp_le_length)
  also have "\<dots> = word_rotr 1 w"
  proof (rule bit_word_eqI)
    fix n :: nat
    assume "n < LENGTH(16)"
    then consider "n = 15" | "n < 15" by fastforce
    then show "bit (drop_bit 1 w OR push_bit 15 (w AND 1)) n = bit (word_rotr 1 w) n"
    proof cases
      case 1
      then show ?thesis by (auto simp add: bit_simps dest: bit_imp_le_length)
    next
      case 2
      then show ?thesis by (auto simp add: bit_simps)
    qed
  qed
  finally show ?thesis .
qed

lemma csumLoop_foldl:
  "csumLoop s acc = foldl (\<lambda>acc c. word_rotr 1 acc + of_nat (of_char c)) acc s"
proof (induction s arbitrary: acc)
  case Nil
  show ?case by simp
next
  case (Cons c cs)
  show ?case by (simp only: csumLoop.simps foldl_Cons rotr1_shifts Cons.IH)
qed

lemma unat_half: "unat (drop_bit 1 (w::16 word)) = unat w div 2"
  by (simp add: unat_drop_bit_eq drop_bit_eq_div unat_div)

lemma unat_low_bit: "unat ((w::16 word) AND 1) = unat w mod 2"
  by (simp add: and_one_eq unat_mod unat_of_nat)

lemma unat_low_bit_up: "unat (push_bit 15 ((w::16 word) AND 1)) = (unat w mod 2) * 2 ^ 15"
proof -
  have "unat (push_bit 15 (w AND 1)) = (unat (w AND 1) * 2 ^ 15) mod 2 ^ 16"
    by (simp only: push_bit_eq_mult unat_word_ariths) simp
  also have "\<dots> = (unat w mod 2) * 2 ^ 15"
    by (simp only: unat_low_bit) simp
  finally show ?thesis .
qed

lemma unat_csum_step:
  "unat (drop_bit 1 (w::16 word) + push_bit 15 (w AND 1) + of_nat (of_char c))
     = spec_step (unat w) (of_char c)"
proof -
  have "unat (drop_bit 1 w + push_bit 15 (w AND 1) + of_nat (of_char c)) =
     ((unat (drop_bit 1 w) + unat (push_bit 15 (w AND 1))) mod 2 ^ 16
        + unat (of_nat (of_char c) :: 16 word)) mod 2 ^ 16"
    by (simp only: unat_word_ariths) simp
  also have "\<dots> = ((unat w div 2 + (unat w mod 2) * 2 ^ 15) mod 2 ^ 16
        + (of_char c) mod 2 ^ 16) mod 2 ^ 16"
    by (simp only: unat_half unat_low_bit_up unat_of_nat) simp
  also have "\<dots> = (unat w div 2 + (unat w mod 2) * 2 ^ 15 + of_char c) mod 2 ^ 16"
    by (simp only: mod_add_eq)
  finally show ?thesis by (simp only: spec_step_def)
qed

lemma unat_csumLoop:
  "unat (csumLoop s acc) = foldl spec_step (unat acc) (map of_char s)"
proof (induction s arbitrary: acc)
  case Nil
  show ?case by simp
next
  case (Cons c cs)
  show ?case by (simp only: csumLoop.simps Cons.IH unat_csum_step list.map foldl_Cons)
qed

lemma fmt_04x_digits:
  "fmt_04x w = [digitChar (unat w div 4096), digitChar (unat w div 256 mod 16),
                digitChar (unat w div 16 mod 16), digitChar (unat w mod 16)]"
proof -
  define n where "n = unat w"
  have n: "n < 65536" using unsigned_less[of w, where ?'a = nat] by (simp add: n_def)
  have a: "n div 16 div 16 = n div 256" and b: "n div 256 div 16 = n div 4096"
    by (simp_all add: div_mult2_eq[symmetric])
  have z: "digitChar 0 = CHR ''0''" by (simp add: digitChar_def)
  have "replicate (4 - length (hexOfNat n)) (CHR ''0'') @ hexOfNat n =
      [digitChar (n div 4096), digitChar (n div 256 mod 16), digitChar (n div 16 mod 16),
       digitChar (n mod 16)]"
    apply (subst (1 2) hexOfNat.simps, subst (1 2) hexOfNat.simps)
    apply (subst (1 2) hexOfNat.simps, subst (1 2) hexOfNat.simps)
    using n
    apply (auto simp: div_eq_0_iff z a b numeral_3_eq_3 numeral_2_eq_2)
    done
  then show ?thesis by (simp add: fmt_04x_def n_def Let_def)
qed

lemma digitChar_hex: "d < 16 \<Longrightarrow> digitChar d \<in> set ''0123456789abcdef''"
  unfolding digitChar_def by (rule nth_mem) simp

lemma fmt_04x_chars: "set (fmt_04x w) \<subseteq> set ''0123456789abcdef''"
proof -
  have "unat w div 4096 < 16" using unsigned_less[of w, where ?'a = nat] by simp
  then show ?thesis
    using digitChar_hex[of "unat w div 4096"] digitChar_hex[of "unat w div 256 mod 16"]
      digitChar_hex[of "unat w div 16 mod 16"] digitChar_hex[of "unat w mod 16"]
    by (simp add: fmt_04x_digits)
qed

text \<open>
  C5. The checksum of \<open>s\<close> is the 16-bit accumulator that starts at 0 and, for each byte in
  order, is rotated right by one bit and then increased by the byte's value modulo \<open>2^16\<close>
  (stated on words with \<open>word_rotr\<close> and on naturals with \<open>spec_step\<close>); it is printed as
  exactly four lowercase hexadecimal digits, and \<open>BuildLayout\<close> puts it, followed by a comma,
  in front of the body.
\<close>

theorem calculateChecksum_rotate_add:
  "calculateChecksum s = fmt_04x (checksum_spec s)
   \<and> unat (checksum_spec s) = foldl spec_step 0 (map of_char s)
   \<and> length (calculateChecksum s) = 4
   \<and> set (calculateChecksum s) \<subseteq> set ''0123456789abcdef''
   \<and> calculateChecksum s =
        (let n = foldl spec_step 0 (map of_char s) in
         [digitChar (n div 4096), digitChar (n div 256 mod 16),
          digitChar (n div 16 mod 16), digitChar (n mod 16)])
   \<and> BuildLayout node = calculateChecksum (buildNodeString node) @ '','' @ buildNodeString node"
proof -
  have eq: "csumLoop s 0 = checksum_spec s"
    by (simp only: checksum_spec_def csumLoop_foldl)
  have u: "unat (checksum_spec s) = foldl spec_step 0 (map of_char s)"
    using unat_csumLoop[of s 0] by (simp add: eq)
  show ?thesis
    using fmt_04x_chars[of "checksum_spec s"]
    by (simp add: calculateChecksum_def eq u fmt_04x_digits BuildLayout_def Let_def)
qed

section \<open>The zoom changes geometry only\<close>

lemma copyLayoutNode_id: "copyLayoutNode t = t"
  by (induction t) (simp add: map_idI)

lemma skeleton_updateChildWidths: "skeleton (updateChildWidths c w) = skeleton c"
  by (induction c w rule: updateChildWidths.induct) simp

lemma skeleton_updateChildHeights: "skeleton (updateChildHeights c h) = skeleton c"
  by (induction c h rule: updateChildHeights.induct) simp

lemma skeleton_placeWidths: "map skeleton (placeWidths cs nws cur) = map skeleton cs"
  by (induction cs nws cur rule: placeWidths.induct)
    (simp_all add: skeleton_updateChildWidths del: updateChildWidths.simps)

lemma skeleton_placeHeights: "map skeleton (placeHeights cs nhs cur) = map skeleton cs"
  by (induction cs nhs cur rule: placeHeights.induct)
    (simp_all add: skeleton_updateChildHeights del: updateChildHeights.simps)

lemma skeleton_zoomBySplit: "skeleton (zoomBySplit c j z) = skeleton c"
  by (cases c) (simp add: zoomBySplit_def skeleton_placeWidths skeleton_placeHeights)

lemma skeleton_ApplyZoomToLayout: "skeleton (ApplyZoomToLayout t p z) = skeleton t"
  by (simp add: ApplyZoomToLayout_def copyLayoutNode_id skeleton_zoomBySplit split: option.split)

lemma skeleton_applyNestedZoom: "skeleton (applyNestedZoom t p z) = skeleton t"
proof (induction t p z rule: applyNestedZoom.induct)
  case (1 node p z)
  show ?case
  proof (cases "findActive (Children node) p 0")
    case None
    then show ?thesis by (subst applyNestedZoom.simps) simp
  next
    case (Some i)
    note i = this
    define child where "child = Children node ! i"
    show ?thesis
    proof (cases "length (Children child) > 1")
      case False
      then show ?thesis using i by (subst applyNestedZoom.simps) (simp add: child_def)
    next
      case True
      note len = this
      show ?thesis
      proof (cases "findActive (Children child) p 0")
        case None
        then show ?thesis using i len by (subst applyNestedZoom.simps) (simp add: child_def)
      next
        case (Some j)
        have ih: "skeleton (applyNestedZoom (zoomBySplit child j z) p z) = skeleton child"
          using "1.IH"[OF i child_def len Some] by (simp add: skeleton_zoomBySplit)
        have ilen: "i < length (Children node)"
          using findActive_range[OF i] by simp
        have "map skeleton ((Children node)[i := applyNestedZoom (zoomBySplit child j z) p z])
                = (map skeleton (Children node))[i := skeleton child]"
          by (simp only: map_update ih)
        also have "\<dots> = (map skeleton (Children node))[i := map skeleton (Children node) ! i]"
          using ilen by (simp only: child_def nth_map)
        also have "\<dots> = map skeleton (Children node)"
          by (rule list_update_id)
        finally have upd: "map skeleton ((Children node)[i := applyNestedZoom (zoomBySplit child j z) p z])
                = map skeleton (Children node)" .
        show ?thesis using i len Some upd
          by (subst applyNestedZoom.simps) (cases node, simp add: child_def)
      qed
    qed
  qed
qed

lemma countPanes_skeleton: "countPanes (skeleton t) = countPanes t"
  by (induction t) (simp add: comp_def cong: map_cong)

text \<open>
  C8. The zoom transform (\<open>ApplyZoomToLayout\<close>, then \<open>applyNestedZoom\<close>) returns a tree with
  as many leaf panes as its input, for every tree, every target pane id, present or not, and
  every percent; even more, it only changes geometry: the shape, the split kinds and the pane
  ids stay.
\<close>

theorem zoom_keeps_leaf_count:
  "countPanes (zoomTransform t p z) = countPanes t \<and> countPanes (ApplyZoomToLayout t p z) = countPanes t
   \<and> skeleton (zoomTransform t p z) = skeleton t"
proof -
  have sk: "skeleton (zoomTransform t p z) = skeleton t"
    by (simp add: zoomTransform_def skeleton_applyNestedZoom skeleton_ApplyZoomToLayout)
  have "countPanes (zoomTransform t p z) = countPanes (skeleton (zoomTransform t p z))"
    by (simp only: countPanes_skeleton)
  then have a: "countPanes (zoomTransform t p z) = countPanes t"
    by (simp only: sk countPanes_skeleton)
  have "countPanes (ApplyZoomToLayout t p z) = countPanes (skeleton (ApplyZoomToLayout t p z))"
    by (simp only: countPanes_skeleton)
  then have b: "countPanes (ApplyZoomToLayout t p z) = countPanes t"
    by (simp only: skeleton_ApplyZoomToLayout countPanes_skeleton)
  show ?thesis using a b sk by simp
qed

section \<open>The documented example\<close>

text \<open>
  C3. The layout of the tests, pane 26, 65 percent. The root decodes to a width split of
  three children of widths 84, 85 and 84. After the zoom, child 0 (the height split that
  holds pane 26) is \<open>(255 - 2) * 65 / 100 = 164\<close> wide plus the rounding adjustment of 1;
  children 1 and 2 take \<open>85 * 89 / 169\<close> and \<open>84 * 89 / 169\<close> of the remaining 89 cells,
  44 each; panes 26 and 41 are as wide as their column; and the three widths and two
  borders add up to 255.
\<close>

theorem example_pane_26_at_65:
  "ParseLayout ''b2d9,255x61,0,0{84x61,0,0[84x30,0,0,26,84x30,0,31,41],85x61,85,0,36,84x61,171,0,42}''
     = Some (Inr (LayoutNode 255 61 0 0 (- 1) SplitHorizontal
         [LayoutNode 84 61 0 0 (- 1) SplitVertical
           [LayoutNode 84 30 0 0 26 SplitNone [], LayoutNode 84 30 0 31 41 SplitNone []],
          LayoutNode 85 61 85 0 36 SplitNone [],
          LayoutNode 84 61 171 0 42 SplitNone []]))
   \<and> zoomTransform (LayoutNode 255 61 0 0 (- 1) SplitHorizontal
         [LayoutNode 84 61 0 0 (- 1) SplitVertical
           [LayoutNode 84 30 0 0 26 SplitNone [], LayoutNode 84 30 0 31 41 SplitNone []],
          LayoutNode 85 61 85 0 36 SplitNone [],
          LayoutNode 84 61 171 0 42 SplitNone []]) 26 65
     = LayoutNode 255 61 0 0 (- 1) SplitHorizontal
         [LayoutNode 165 61 0 0 (- 1) SplitVertical
           [LayoutNode 165 39 0 0 26 SplitNone [], LayoutNode 165 21 0 40 41 SplitNone []],
          LayoutNode 44 61 166 0 36 SplitNone [],
          LayoutNode 44 61 211 0 42 SplitNone []]
   \<and> ApplyZoomToLayout (LayoutNode 255 61 0 0 (- 1) SplitHorizontal
         [LayoutNode 84 61 0 0 (- 1) SplitVertical
           [LayoutNode 84 30 0 0 26 SplitNone [], LayoutNode 84 30 0 31 41 SplitNone []],
          LayoutNode 85 61 85 0 36 SplitNone [],
          LayoutNode 84 61 171 0 42 SplitNone []]) 26 65
     = LayoutNode 255 61 0 0 (- 1) SplitHorizontal
         [LayoutNode 165 61 0 0 (- 1) SplitVertical
           [LayoutNode 165 30 0 0 26 SplitNone [], LayoutNode 165 30 0 31 41 SplitNone []],
          LayoutNode 44 61 166 0 36 SplitNone [],
          LayoutNode 44 61 211 0 42 SplitNone []]
   \<and> zoomSizes 255 [84, 85, 84] 0 65 = [165, 44, 44]
   \<and> quot64 (mul64 (255 - 2) 65) 100 = 164
   \<and> (165::int) = 164 + ((255 - 2) - (164 + 44 + 44))
   \<and> (44::int) = 85 * ((255 - 2) - 164) div (85 + 84)
   \<and> (44::int) = 84 * ((255 - 2) - 164) div (85 + 84)
   \<and> (165::int) + 44 + 44 + 2 = 255"
  by code_simp

section \<open>Inputs on which the specification and the code differ\<close>

text \<open>
  C1 (evaluated). A layout that conserves sizes at every split node: two columns, the left
  one split into two rows, the upper row split into two columns again. Zooming pane 4 (the
  right column) gives the left column 89 cells; the width is handed down through the
  height split to the inner width split, whose children keep their widths 41 and 42, so
  that node no longer conserves its width: \<open>41 + 42 + 1 = 84\<close>, not 89.
\<close>

theorem nested_width_split_not_conserved:
  "ParseLayout ''95c5,255x61,0,0{84x61,0,0[84x30,0,0{41x30,0,0,1,42x30,42,0,2},84x30,0,31,3],170x61,85,0,4}''
     = Some (Inr (LayoutNode 255 61 0 0 (- 1) SplitHorizontal
         [LayoutNode 84 61 0 0 (- 1) SplitVertical
           [LayoutNode 84 30 0 0 (- 1) SplitHorizontal
              [LayoutNode 41 30 0 0 1 SplitNone [], LayoutNode 42 30 42 0 2 SplitNone []],
            LayoutNode 84 30 0 31 3 SplitNone []],
          LayoutNode 170 61 85 0 4 SplitNone []]))
   \<and> conserved (LayoutNode 255 61 0 0 (- 1) SplitHorizontal
         [LayoutNode 84 61 0 0 (- 1) SplitVertical
           [LayoutNode 84 30 0 0 (- 1) SplitHorizontal
              [LayoutNode 41 30 0 0 1 SplitNone [], LayoutNode 42 30 42 0 2 SplitNone []],
            LayoutNode 84 30 0 31 3 SplitNone []],
          LayoutNode 170 61 85 0 4 SplitNone []])
   \<and> zoomTransform (LayoutNode 255 61 0 0 (- 1) SplitHorizontal
         [LayoutNode 84 61 0 0 (- 1) SplitVertical
           [LayoutNode 84 30 0 0 (- 1) SplitHorizontal
              [LayoutNode 41 30 0 0 1 SplitNone [], LayoutNode 42 30 42 0 2 SplitNone []],
            LayoutNode 84 30 0 31 3 SplitNone []],
          LayoutNode 170 61 85 0 4 SplitNone []]) 4 65
     = LayoutNode 255 61 0 0 (- 1) SplitHorizontal
         [LayoutNode 89 61 0 0 (- 1) SplitVertical
           [LayoutNode 89 30 0 0 (- 1) SplitHorizontal
              [LayoutNode 41 30 0 0 1 SplitNone [], LayoutNode 42 30 42 0 2 SplitNone []],
            LayoutNode 89 30 0 31 3 SplitNone []],
          LayoutNode 165 61 90 0 4 SplitNone []]
   \<and> \<not> conserved (zoomTransform (LayoutNode 255 61 0 0 (- 1) SplitHorizontal
         [LayoutNode 84 61 0 0 (- 1) SplitVertical
           [LayoutNode 84 30 0 0 (- 1) SplitHorizontal
              [LayoutNode 41 30 0 0 1 SplitNone [], LayoutNode 42 30 42 0 2 SplitNone []],
            LayoutNode 84 30 0 31 3 SplitNone []],
          LayoutNode 170 61 85 0 4 SplitNone []]) 4 65)"
  by code_simp

section \<open>Decoder: progress and termination\<close>

lemma cut_Some: "cut sep s = Some (b, a) \<Longrightarrow> s = b @ sep # a \<and> sep \<notin> set b"
  by (induction s arbitrary: b) (auto split: if_splits option.splits)

lemma cut_None: "cut sep s = None \<longleftrightarrow> sep \<notin> set s"
  by (induction s) (auto split: option.splits)

lemma scanTo_append: "fst (scanTo stop s) @ snd (scanTo stop s) = s"
  by (simp add: scanTo_def)

lemma scanTo_length: "length (snd (scanTo stop s)) \<le> length s"
  by (simp add: scanTo_def length_dropWhile_le)

lemma parseGeometry_shorter:
  "parseGeometry s = Inr (w, h, x, y, s4) \<Longrightarrow> length s4 < length s"
  unfolding parseGeometry_def
  by (auto split: option.splits prod.splits dest!: cut_Some
      intro: le_less_trans[OF scanTo_length])

lemma skipChar_length: "length (skipChar c s) \<le> length s"
  by (cases s) auto

lemma parse_progress:
  "(\<forall>s t r. parseNode n s = Some (Inr (t, r)) \<longrightarrow> length r < length s) \<and>
   (\<forall>s e acc cs r. parseChildren n s e acc = Some (Inr (cs, r)) \<longrightarrow> length r \<le> length s)"
proof (induction n)
  case 0
  show ?case by simp
next
  case (Suc n)
  have node: "length r < length s" if "parseNode (Suc n) s = Some (Inr (t, r))" for s t r
  proof -
    from that obtain w h x y s4 where g: "parseGeometry s = Inr (w, h, x, y, s4)"
      by (auto split: sum.splits)
    have l4: "length s4 < length s" using parseGeometry_shorter[OF g] .
    show ?thesis
    proof (cases s4)
      case Nil
      then show ?thesis using that g l4 by simp
    next
      case (Cons c s5)
      then show ?thesis using that g l4 Suc.IH
          le_less_trans[OF scanTo_length[of isIdStop s5]]
        by (auto split: if_splits option.splits sum.splits prod.splits) fastforce+
    qed
  qed
  have children: "length r \<le> length s" if "parseChildren (Suc n) s e acc = Some (Inr (cs, r))" for s e acc cs r
  proof (cases "s \<noteq> [] \<and> hd s \<noteq> e")
    case False
    then show ?thesis using that skipChar_length[of e s] by auto
  next
    case True
    with that obtain child rest where p: "parseNode n s = Some (Inr (child, rest))"
      and q: "parseChildren n (skipChar (CHR '','') rest) e (acc @ [child]) = Some (Inr (cs, r))"
      by (auto split: option.splits sum.splits)
    have "length rest < length s" using Suc.IH p by blast
    moreover have "length r \<le> length (skipChar (CHR '','') rest)" using Suc.IH q by blast
    ultimately show ?thesis using skipChar_length[of "CHR '',''" rest] by linarith
  qed
  show ?case using node children by blast
qed

lemma parseNode_geometry_error:
  "parseGeometry s = Inl e \<Longrightarrow> parseNode (Suc n) s = Some (Inl e)"
  by simp

lemma parseNode_end:
  "parseGeometry s = Inr (w, h, x, y, []) \<Longrightarrow>
   parseNode (Suc n) s = Some (Inr (LayoutNode w h x y (- 1) SplitNone [], []))"
  by simp

lemma parseNode_brace:
  "parseGeometry s = Inr (w, h, x, y, CHR ''{'' # s5) \<Longrightarrow>
   parseNode (Suc n) s =
     (case parseChildren n s5 (CHR ''}'') [] of
        None \<Rightarrow> None
      | Some (Inl e) \<Rightarrow> Some (Inl e)
      | Some (Inr (children, rest)) \<Rightarrow>
          Some (Inr (LayoutNode w h x y (- 1) SplitHorizontal children, rest)))"
  by simp

lemma parseNode_bracket:
  "parseGeometry s = Inr (w, h, x, y, CHR ''['' # s5) \<Longrightarrow>
   parseNode (Suc n) s =
     (case parseChildren n s5 (CHR '']'') [] of
        None \<Rightarrow> None
      | Some (Inl e) \<Rightarrow> Some (Inl e)
      | Some (Inr (children, rest)) \<Rightarrow>
          Some (Inr (LayoutNode w h x y (- 1) SplitVertical children, rest)))"
  by simp

lemma parseNode_no_split:
  "parseGeometry s = Inr (w, h, x, y, c # s5) \<Longrightarrow> c \<noteq> CHR ''{'' \<Longrightarrow> c \<noteq> CHR ''['' \<Longrightarrow>
   parseNode (Suc n) s =
     (if c = CHR '','' then
        (case Atoi (fst (scanTo isIdStop s5)) of
           None \<Rightarrow> Some (Inl InvalidPaneID)
         | Some paneID \<Rightarrow>
             Some (Inr (LayoutNode w h x y paneID SplitNone [], snd (scanTo isIdStop s5))))
      else if c = CHR ''}'' \<or> c = CHR '']'' then
        Some (Inr (LayoutNode w h x y (- 1) SplitNone [], c # s5))
      else Some (Inl (UnexpectedCharacter c)))"
  by simp

lemma parseChildren_stop:
  "s = [] \<or> hd s = e \<Longrightarrow> parseChildren (Suc n) s e acc = Some (Inr (acc, skipChar e s))"
  by auto

lemma parseChildren_step:
  "s \<noteq> [] \<Longrightarrow> hd s \<noteq> e \<Longrightarrow>
   parseChildren (Suc n) s e acc =
     (case parseNode n s of
        None \<Rightarrow> None
      | Some (Inl err) \<Rightarrow> Some (Inl err)
      | Some (Inr (child, rest)) \<Rightarrow>
          parseChildren n (skipChar (CHR '','') rest) e (acc @ [child]))"
  by simp

lemma parse_fuel_mono:
  "(\<forall>s r m. parseNode n s = Some r \<longrightarrow> n \<le> m \<longrightarrow> parseNode m s = Some r) \<and>
   (\<forall>s e acc r m. parseChildren n s e acc = Some r \<longrightarrow> n \<le> m \<longrightarrow> parseChildren m s e acc = Some r)"
proof (induction n)
  case 0
  show ?case by simp
next
  case (Suc n)
  have node: "parseNode m s = Some r" if p: "parseNode (Suc n) s = Some r" and le: "Suc n \<le> m" for s r m
  proof -
    obtain m' where m: "m = Suc m'" and le': "n \<le> m'" using le by (cases m) auto
    have ch: "parseChildren m' s5 e [] = Some v" if "parseChildren n s5 e [] = Some v" for s5 e v
      using Suc.IH that le' by blast
    show ?thesis
    proof (cases "parseGeometry s")
      case (Inl e)
      then show ?thesis using p by (simp only: m parseNode_geometry_error)
    next
      case (Inr g)
      then obtain w h x y s4 where g: "parseGeometry s = Inr (w, h, x, y, s4)"
        by (cases g) auto
      show ?thesis
      proof (cases s4)
        case Nil
        then show ?thesis using p g by (simp only: m parseNode_end)
      next
        case (Cons c s5)
        note g' = g[unfolded Cons]
        consider "c = CHR ''{''" | "c = CHR ''[''" | "c \<noteq> CHR ''{''" "c \<noteq> CHR ''[''" by blast
        then show ?thesis
        proof cases
          case 1
          note g1 = g'[unfolded 1]
          obtain v where v: "parseChildren n s5 (CHR ''}'') [] = Some v"
            using p by (simp only: parseNode_brace[OF g1] split: option.splits) auto
          show ?thesis using p by (simp only: m parseNode_brace[OF g1] v ch[OF v])
        next
          case 2
          note g2 = g'[unfolded 2]
          obtain v where v: "parseChildren n s5 (CHR '']'') [] = Some v"
            using p by (simp only: parseNode_bracket[OF g2] split: option.splits) auto
          show ?thesis using p by (simp only: m parseNode_bracket[OF g2] v ch[OF v])
        next
          case 3
          show ?thesis using p by (simp only: m parseNode_no_split[OF g' 3])
        qed
      qed
    qed
  qed
  have children: "parseChildren m s e acc = Some r" if p: "parseChildren (Suc n) s e acc = Some r" and le: "Suc n \<le> m" for s e acc r m
  proof -
    obtain m' where m: "m = Suc m'" and le': "n \<le> m'" using le by (cases m) auto
    show ?thesis
    proof (cases "s \<noteq> [] \<and> hd s \<noteq> e")
      case False
      then have st: "s = [] \<or> hd s = e" by blast
      show ?thesis using p by (simp only: m parseChildren_stop[OF st])
    next
      case True
      then have a: "s \<noteq> []" and b: "hd s \<noteq> e" by blast+
      note step = parseChildren_step[OF a b]
      obtain v where v: "parseNode n s = Some v"
        using p by (simp only: step split: option.splits) auto
      have v': "parseNode m' s = Some v" using Suc.IH v le' by blast
      show ?thesis
      proof (cases v)
        case (Inl err)
        then show ?thesis using p
          by (simp add: m step v v' del: parseChildren.simps parseNode.simps)
      next
        case (Inr cr)
        obtain child rest where cr: "cr = (child, rest)" by (cases cr)
        have q: "parseChildren n (skipChar (CHR '','') rest) e (acc @ [child]) = Some r"
          using p by (simp add: step v Inr cr del: parseChildren.simps parseNode.simps)
        have "parseChildren m' (skipChar (CHR '','') rest) e (acc @ [child]) = Some r"
          using Suc.IH q le' by blast
        then show ?thesis by (simp add: m step v' Inr cr del: parseChildren.simps parseNode.simps)
      qed
    qed
  qed
  show ?case using node children by blast
qed


lemma parse_enough_fuel:
  "(\<forall>s. 2 * length s + 1 \<le> n \<longrightarrow> parseNode n s \<noteq> None) \<and>
   (\<forall>s e acc. 2 * length s + 2 \<le> n \<longrightarrow> parseChildren n s e acc \<noteq> None)"
proof (induction n)
  case 0
  show ?case by simp
next
  case (Suc n)
  have node: "parseNode (Suc n) s \<noteq> None" if le: "2 * length s + 1 \<le> Suc n" for s
  proof (cases "parseGeometry s")
    case (Inl e)
    then show ?thesis by (simp only: parseNode_geometry_error) simp
  next
    case (Inr g)
    then obtain w h x y s4 where g: "parseGeometry s = Inr (w, h, x, y, s4)"
      by (cases g) auto
    have l4: "length s4 < length s" using parseGeometry_shorter[OF g] .
    show ?thesis
    proof (cases s4)
      case Nil
      then show ?thesis using g by (simp only: parseNode_end) simp
    next
      case (Cons c s5)
      note g' = g[unfolded Cons]
      have "2 * length s5 + 2 \<le> n" using l4 le Cons by simp
      then have ch: "parseChildren n s5 e [] \<noteq> None" for e using Suc.IH by blast
      consider "c = CHR ''{''" | "c = CHR ''[''" | "c \<noteq> CHR ''{''" "c \<noteq> CHR ''[''" by blast
      then show ?thesis
      proof cases
        case 1
        show ?thesis using ch[of "CHR ''}''"]
          by (simp only: parseNode_brace[OF g'[unfolded 1]] split: option.splits sum.splits prod.splits) simp
      next
        case 2
        show ?thesis using ch[of "CHR '']''"]
          by (simp only: parseNode_bracket[OF g'[unfolded 2]] split: option.splits sum.splits prod.splits) simp
      next
        case 3
        show ?thesis
          by (simp only: parseNode_no_split[OF g' 3] split: option.splits if_splits) simp
      qed
    qed
  qed
  have children: "parseChildren (Suc n) s e acc \<noteq> None" if le: "2 * length s + 2 \<le> Suc n" for s e acc
  proof (cases "s \<noteq> [] \<and> hd s \<noteq> e")
    case False
    then have st: "s = [] \<or> hd s = e" by blast
    show ?thesis by (simp only: parseChildren_stop[OF st]) simp
  next
    case True
    then have a: "s \<noteq> []" and b: "hd s \<noteq> e" by blast+
    note step = parseChildren_step[OF a b]
    have pn: "parseNode n s \<noteq> None" using Suc.IH le by simp
    then obtain res where Some: "parseNode n s = Some res" by blast
    show ?thesis
    proof (cases res)
      case (Inl err)
      then show ?thesis by (simp add: step Some del: parseChildren.simps parseNode.simps)
    next
      case (Inr cr)
      obtain child rest where cr: "cr = (child, rest)" by (cases cr)
      have "length rest < length s" using parse_progress Some Inr cr by blast
      then have "2 * length (skipChar (CHR '','') rest) + 2 \<le> n"
        using skipChar_length[of "CHR '',''" rest] le by linarith
      then have "parseChildren n (skipChar (CHR '','') rest) e (acc @ [child]) \<noteq> None"
        using Suc.IH by blast
      then show ?thesis by (simp add: step Some Inr cr del: parseChildren.simps parseNode.simps)
    qed
  qed
  show ?case using node children by blast
qed

declare parseNode.simps [simp del] parseChildren.simps [simp del]

text \<open>
  C10. \<open>ParseLayout\<close> returns on every input string, a tree or an error: the fuel it
  passes is never used up. A successful \<open>parseNode\<close> leaves strictly less text than it
  was given, so every round of the loop of \<open>parseChildren\<close> either consumes input or stops
  with an error; more fuel never changes a result, and any fuel above twice the length of
  the text is enough.
\<close>

theorem ParseLayout_total:
  "(\<exists>r. ParseLayout s = Some r)
   \<and> (\<forall>n t r. parseNode n s = Some (Inr (t, r)) \<longrightarrow> length r < length s)
   \<and> (\<forall>n m r. parseNode n s = Some r \<and> n \<le> m \<longrightarrow> parseNode m s = Some r)
   \<and> (\<forall>n. 2 * length s + 1 \<le> n \<longrightarrow> (\<exists>r. parseNode n s = Some r))"
proof (intro conjI allI impI)
  show "\<exists>r. ParseLayout s = Some r"
  proof (cases "cut (CHR '','') s")
    case None
    then show ?thesis by (simp add: ParseLayout_def)
  next
    case (Some ba)
    obtain b a where ba: "ba = (b, a)" by (cases ba)
    have "parseNode (2 * length a + 2) a \<noteq> None"
      using conjunct1[OF parse_enough_fuel[of "2 * length a + 2"]] by simp
    then obtain v where v: "parseNode (2 * length a + 2) a = Some v" by blast
    show ?thesis using v
      by (cases v) (auto simp add: ParseLayout_def Some ba)
  qed
next
  fix n t r
  assume "parseNode n s = Some (Inr (t, r))"
  then show "length r < length s" using conjunct1[OF parse_progress[of n]] by blast
next
  fix n m r
  assume "parseNode n s = Some r \<and> n \<le> m"
  then show "parseNode m s = Some r" using conjunct1[OF parse_fuel_mono[of n]] by blast
next
  fix n
  assume "2 * length s + 1 \<le> n"
  then have "parseNode n s \<noteq> None" using conjunct1[OF parse_enough_fuel[of n]] by blast
  then show "\<exists>r. parseNode n s = Some r" by blast
qed

theorem ParseLayout_total_witness:
  "ParseLayout ''c,1x2,3,4,5,'' = Some (Inr (LayoutNode 1 2 3 4 5 SplitNone []))
   \<and> parseNode 1 ''1x2,3,4,5,'' = Some (Inr (LayoutNode 1 2 3 4 5 SplitNone [], '',''))
   \<and> length '','' < length ''1x2,3,4,5,''
   \<and> parseNode 40 ''1x2,3,4,5,'' = Some (Inr (LayoutNode 1 2 3 4 5 SplitNone [], '',''))"
proof -
  have a: "parseNode 1 ''1x2,3,4,5,'' = Some (Inr (LayoutNode 1 2 3 4 5 SplitNone [], '',''))"
    by code_simp
  have b: "ParseLayout ''c,1x2,3,4,5,'' = Some (Inr (LayoutNode 1 2 3 4 5 SplitNone []))"
    by code_simp
  note t = ParseLayout_total[of "''1x2,3,4,5,''"]
  have c: "length '','' < length ''1x2,3,4,5,''"
    using t a by blast
  have d: "parseNode 40 ''1x2,3,4,5,'' = Some (Inr (LayoutNode 1 2 3 4 5 SplitNone [], '',''))"
  proof -
    have "(1::nat) \<le> 40" by simp
    then show ?thesis using t a by blast
  qed
  show ?thesis using a b c d by blast
qed

section \<open>Encoding and decoding again\<close>







lemma Atoi_range: "Atoi s = Some v \<Longrightarrow> inInt64 v"
  by (auto simp: Atoi_def Let_def split: if_splits option.splits)



lemma cut_append: "sep \<notin> set b \<Longrightarrow> cut sep (b @ sep # a) = Some (b, a)"
  by (induction b) auto

lemma scanTo_prefix:
  "list_all (\<lambda>c. \<not> stop c) b \<Longrightarrow> r = [] \<or> stop (hd r) \<Longrightarrow> scanTo stop (b @ r) = (b, r)"
  by (cases r) (auto simp: scanTo_def list_all_iff takeWhile_append dropWhile_append)





lemma node_mono: "parseNode n s = Some r \<Longrightarrow> n \<le> m \<Longrightarrow> parseNode m s = Some r"
  using conjunct1[OF parse_fuel_mono[of n]] by blast

lemma children_mono:
  "parseChildren n s e acc = Some r \<Longrightarrow> n \<le> m \<Longrightarrow> parseChildren m s e acc = Some r"
  using conjunct2[OF parse_fuel_mono[of n]] by blast

lemma parseGeometry_range:
  "parseGeometry s = Inr (w, h, x, y, s4) \<Longrightarrow> inInt64 w \<and> inInt64 h \<and> inInt64 x \<and> inInt64 y"
  unfolding parseGeometry_def
  by (auto split: option.splits prod.splits dest!: Atoi_range)

lemma parse_shaped:
  "(\<forall>s t r. parseNode n s = Some (Inr (t, r)) \<longrightarrow> parserShaped t) \<and>
   (\<forall>s e acc cs r. parseChildren n s e acc = Some (Inr (cs, r)) \<longrightarrow>
       list_all parserShaped acc \<longrightarrow> list_all parserShaped cs)"
proof (induction n)
  case 0
  show ?case by (simp add: parseNode.simps parseChildren.simps)
next
  case (Suc n)
  have node: "parserShaped t" if p: "parseNode (Suc n) s = Some (Inr (t, r))" for s t r
  proof (cases "parseGeometry s")
    case (Inl e)
    then show ?thesis using p by (simp add: parseNode_geometry_error)
  next
    case (Inr g)
    then obtain w h x y s4 where g: "parseGeometry s = Inr (w, h, x, y, s4)"
      by (cases g) auto
    note rg = parseGeometry_range[OF g]
    have m1: "inInt64 (- 1)" by (simp add: inInt64_def)
    show ?thesis
    proof (cases s4)
      case Nil
      then show ?thesis using p g rg m1 by (auto simp add: parseNode_end)
    next
      case (Cons c s5)
      note g' = g[unfolded Cons]
      consider "c = CHR ''{''" | "c = CHR ''[''" | "c \<noteq> CHR ''{''" "c \<noteq> CHR ''[''" by blast
      then show ?thesis
      proof cases
        case 1
        from p obtain cs where cs: "parseChildren n s5 (CHR ''}'') [] = Some (Inr (cs, r))"
          and t: "t = LayoutNode w h x y (- 1) SplitHorizontal cs"
          by (auto simp add: parseNode_brace[OF g'[unfolded 1]] split: option.splits sum.splits)
        have "list_all parserShaped cs" using Suc.IH cs by fastforce
        then show ?thesis using t rg m1 by simp
      next
        case 2
        from p obtain cs where cs: "parseChildren n s5 (CHR '']'') [] = Some (Inr (cs, r))"
          and t: "t = LayoutNode w h x y (- 1) SplitVertical cs"
          by (auto simp add: parseNode_bracket[OF g'[unfolded 2]] split: option.splits sum.splits)
        have "list_all parserShaped cs" using Suc.IH cs by fastforce
        then show ?thesis using t rg m1 by simp
      next
        case 3
        show ?thesis using p rg m1
          by (auto simp add: parseNode_no_split[OF g' 3] split: option.splits if_splits
              dest: Atoi_range)
      qed
    qed
  qed
  have children: "list_all parserShaped cs"
    if p: "parseChildren (Suc n) s e acc = Some (Inr (cs, r))" and a: "list_all parserShaped acc"
    for s e acc cs r
  proof (cases "s \<noteq> [] \<and> hd s \<noteq> e")
    case False
    then have st: "s = [] \<or> hd s = e" by blast
    show ?thesis using p a by (simp add: parseChildren_stop[OF st])
  next
    case True
    then have ne: "s \<noteq> []" and hd: "hd s \<noteq> e" by blast+
    from p obtain child rest where c: "parseNode n s = Some (Inr (child, rest))"
      and q: "parseChildren n (skipChar (CHR '','') rest) e (acc @ [child]) = Some (Inr (cs, r))"
      by (auto simp add: parseChildren_step[OF ne hd] split: option.splits sum.splits)
    have "parserShaped child" using Suc.IH c by blast
    then have "list_all parserShaped (acc @ [child])" using a by simp
    then show ?thesis using Suc.IH q by blast
  qed
  show ?case using node children by blast
qed







lemma ParseLayout_shaped: "ParseLayout s = Some (Inr t) \<Longrightarrow> parserShaped t"
proof -
  assume "ParseLayout s = Some (Inr t)"
  then obtain n rest r where "parseNode n rest = Some (Inr (t, r))"
    by (auto simp: ParseLayout_def split: option.splits sum.splits prod.splits)
  then show "parserShaped t" using conjunct1[OF parse_shaped[of n]] by blast
qed



section \<open>A target that is not in the tree\<close>

lemma findActive_None:
  "findActive cs p k = None \<longleftrightarrow> \<not> list_ex (\<lambda>c. containsPane c p) cs"
  by (induction cs p k rule: findActive.induct) auto

lemma applyNestedZoom_absent:
  "findActive (Children node) p 0 = None \<Longrightarrow> applyNestedZoom node p z = node"
  by (subst applyNestedZoom.simps) simp

lemma zoom_absent:
  assumes "\<not> list_ex (\<lambda>c. containsPane c p) (Children node)"
  shows "ApplyZoomToLayout node p z = node \<and> zoomTransform node p z = node"
proof -
  have f: "findActive (Children node) p 0 = None" using assms by (simp add: findActive_None)
  then have a: "ApplyZoomToLayout node p z = node"
    by (simp add: ApplyZoomToLayout_def copyLayoutNode_id)
  then show ?thesis using f by (simp add: zoomTransform_def applyNestedZoom_absent)
qed

lemma containsPane_leafIDs:
  "parserShaped t \<Longrightarrow> p \<noteq> - 1 \<Longrightarrow> containsPane t p \<longleftrightarrow> p \<in> set (leafIDs t)"
proof (induction t)
  case (LayoutNode w h x y pid st cs)
  have kids: "containsPane c p \<longleftrightarrow> p \<in> set (leafIDs c)" if "c \<in> set cs" for c
    using LayoutNode.IH[OF that] LayoutNode.prems that by (simp add: list_all_iff)
  show ?case
  proof (cases "st = SplitNone")
    case True
    then show ?thesis using LayoutNode.prems by auto
  next
    case False
    then have "pid \<noteq> p" using LayoutNode.prems by auto
    then show ?thesis using False kids by (auto simp: list_ex_iff)
  qed
qed

lemma leafIDs_children:
  "SplitType t \<noteq> SplitNone \<Longrightarrow> c \<in> set (Children t) \<Longrightarrow> set (leafIDs c) \<subseteq> set (leafIDs t)"
  by (cases t) auto

text \<open>
  C4 (amended). \<open>containsPane\<close> looks at the \<open>PaneID\<close> field of every node, and split
  nodes carry \<open>-1\<close>. If no node below the root carries the target id, then
  \<open>ApplyZoomToLayout\<close> returns a copy equal to its input, for every percent, and so does
  the whole transform. For a decoded tree this is the case when the target id is not \<open>-1\<close>
  and is not the pane id of a leaf. The copy is equal to the original
  (\<open>copyLayoutNode node = node\<close>); the functions here return new values and leave their
  arguments as they are.
\<close>

theorem zoom_absent_target:
  "(\<not> list_ex (\<lambda>c. containsPane c p) (Children node) \<longrightarrow>
      ApplyZoomToLayout node p z = node \<and> zoomTransform node p z = node)
   \<and> (ParseLayout s = Some (Inr t) \<and> p \<noteq> - 1 \<and> p \<notin> set (leafIDs t) \<longrightarrow>
      ApplyZoomToLayout t p z = t \<and> zoomTransform t p z = t)
   \<and> copyLayoutNode node = node"
proof (intro conjI impI)
  assume "\<not> list_ex (\<lambda>c. containsPane c p) (Children node)"
  then show "ApplyZoomToLayout node p z = node" "zoomTransform node p z = node"
    using zoom_absent by blast+
next
  assume a: "ParseLayout s = Some (Inr t) \<and> p \<noteq> - 1 \<and> p \<notin> set (leafIDs t)"
  then have sh: "parserShaped t" using ParseLayout_shaped by blast
  have "\<not> containsPane c p" if c: "c \<in> set (Children t)" for c
  proof -
    have "parserShaped c" using sh c by (cases t) (simp add: list_all_iff)
    moreover have "SplitType t \<noteq> SplitNone" using sh c by (cases t) auto
    then have "p \<notin> set (leafIDs c)" using leafIDs_children[OF _ c] a by blast
    ultimately show ?thesis using containsPane_leafIDs a by blast
  qed
  then have "\<not> list_ex (\<lambda>c. containsPane c p) (Children t)" by (simp add: list_ex_iff)
  then show "ApplyZoomToLayout t p z = t" "zoomTransform t p z = t"
    using zoom_absent by blast+
next
  show "copyLayoutNode node = node" by (rule copyLayoutNode_id)
qed

theorem zoom_absent_target_witness:
  "\<not> list_ex (\<lambda>c. containsPane c 7)
       (Children (LayoutNode 199 53 0 0 (- 1) SplitHorizontal
          [LayoutNode 99 53 0 0 1 SplitNone [], LayoutNode 99 53 100 0 2 SplitNone []]))
   \<and> ParseLayout ''1234,199x53,0,0{99x53,0,0,1,99x53,100,0,2}''
       = Some (Inr (LayoutNode 199 53 0 0 (- 1) SplitHorizontal
          [LayoutNode 99 53 0 0 1 SplitNone [], LayoutNode 99 53 100 0 2 SplitNone []]))
   \<and> (7::int) \<noteq> - 1
   \<and> 7 \<notin> set (leafIDs (LayoutNode 199 53 0 0 (- 1) SplitHorizontal
          [LayoutNode 99 53 0 0 1 SplitNone [], LayoutNode 99 53 100 0 2 SplitNone []]))
   \<and> ApplyZoomToLayout (LayoutNode 199 53 0 0 (- 1) SplitHorizontal
          [LayoutNode 99 53 0 0 1 SplitNone [], LayoutNode 99 53 100 0 2 SplitNone []]) 7 65
       = LayoutNode 199 53 0 0 (- 1) SplitHorizontal
          [LayoutNode 99 53 0 0 1 SplitNone [], LayoutNode 99 53 100 0 2 SplitNone []]
   \<and> zoomTransform (LayoutNode 199 53 0 0 (- 1) SplitHorizontal
          [LayoutNode 99 53 0 0 1 SplitNone [], LayoutNode 99 53 100 0 2 SplitNone []]) 7 65
       = LayoutNode 199 53 0 0 (- 1) SplitHorizontal
          [LayoutNode 99 53 0 0 1 SplitNone [], LayoutNode 99 53 100 0 2 SplitNone []]"
proof -
  define t where "t = LayoutNode 199 53 0 0 (- 1) SplitHorizontal
          [LayoutNode 99 53 0 0 1 SplitNone [], LayoutNode 99 53 100 0 2 SplitNone []]"
  have a: "\<not> list_ex (\<lambda>c. containsPane c 7) (Children t)" by (simp add: t_def)
  have b: "ParseLayout ''1234,199x53,0,0{99x53,0,0,1,99x53,100,0,2}'' = Some (Inr t)"
    unfolding t_def by code_simp
  have c: "(7::int) \<noteq> - 1 \<and> 7 \<notin> set (leafIDs t)" by (simp add: t_def)
  show ?thesis
    using zoom_absent_target[of 7 t 65 "''1234,199x53,0,0{99x53,0,0,1,99x53,100,0,2}''" t] a b c
    unfolding t_def by blast
qed

text \<open>
  C4 as stated fails for the target id \<open>-1\<close>: no leaf of the example layout has it, but the
  first child is a split node, which carries \<open>-1\<close>, and the root is zoomed on it.
\<close>

theorem zoom_absent_target_counterexample:
  "- 1 \<notin> set (leafIDs (LayoutNode 255 61 0 0 (- 1) SplitHorizontal
         [LayoutNode 84 61 0 0 (- 1) SplitVertical
           [LayoutNode 84 30 0 0 26 SplitNone [], LayoutNode 84 30 0 31 41 SplitNone []],
          LayoutNode 85 61 85 0 36 SplitNone [],
          LayoutNode 84 61 171 0 42 SplitNone []]))
   \<and> ApplyZoomToLayout (LayoutNode 255 61 0 0 (- 1) SplitHorizontal
         [LayoutNode 84 61 0 0 (- 1) SplitVertical
           [LayoutNode 84 30 0 0 26 SplitNone [], LayoutNode 84 30 0 31 41 SplitNone []],
          LayoutNode 85 61 85 0 36 SplitNone [],
          LayoutNode 84 61 171 0 42 SplitNone []]) (- 1) 65
     = LayoutNode 255 61 0 0 (- 1) SplitHorizontal
         [LayoutNode 165 61 0 0 (- 1) SplitVertical
           [LayoutNode 165 30 0 0 26 SplitNone [], LayoutNode 165 30 0 31 41 SplitNone []],
          LayoutNode 44 61 166 0 36 SplitNone [],
          LayoutNode 44 61 211 0 42 SplitNone []]
   \<and> ApplyZoomToLayout (LayoutNode 255 61 0 0 (- 1) SplitHorizontal
         [LayoutNode 84 61 0 0 (- 1) SplitVertical
           [LayoutNode 84 30 0 0 26 SplitNone [], LayoutNode 84 30 0 31 41 SplitNone []],
          LayoutNode 85 61 85 0 36 SplitNone [],
          LayoutNode 84 61 171 0 42 SplitNone []]) (- 1) 65
     \<noteq> LayoutNode 255 61 0 0 (- 1) SplitHorizontal
         [LayoutNode 84 61 0 0 (- 1) SplitVertical
           [LayoutNode 84 30 0 0 26 SplitNone [], LayoutNode 84 30 0 31 41 SplitNone []],
          LayoutNode 85 61 85 0 36 SplitNone [],
          LayoutNode 84 61 171 0 42 SplitNone []]"
  by code_simp

section \<open>What the decoder rejects\<close>

lemma parseGeometry_fields:
  "parseGeometry s = Inr (w, h, x, y, s4) \<Longrightarrow>
   \<exists>ws hs xs ys. s = ws @ ''x'' @ hs @ '','' @ xs @ '','' @ ys @ s4
      \<and> Atoi ws = Some w \<and> Atoi hs = Some h \<and> Atoi xs = Some x \<and> Atoi ys = Some y
      \<and> (s4 = [] \<or> isYStop (hd s4))"
proof -
  assume g: "parseGeometry s = Inr (w, h, x, y, s4)"
  then obtain ws s1 where c1: "cut (CHR ''x'') s = Some (ws, s1)"
    unfolding parseGeometry_def by (auto split: option.splits)
  with g have a1: "Atoi ws = Some w"
    unfolding parseGeometry_def by (auto split: option.splits)
  from g c1 a1 obtain hs s2 where c2: "cut (CHR '','') s1 = Some (hs, s2)"
    unfolding parseGeometry_def by (auto split: option.splits)
  with g c1 a1 have a2: "Atoi hs = Some h"
    unfolding parseGeometry_def by (auto split: option.splits)
  from g c1 a1 c2 a2 obtain xs s3 where c3: "cut (CHR '','') s2 = Some (xs, s3)"
    unfolding parseGeometry_def by (auto split: option.splits)
  with g c1 a1 c2 a2 have a3: "Atoi xs = Some x"
    unfolding parseGeometry_def by (auto split: option.splits)
  from g c1 a1 c2 a2 c3 a3 have a4: "Atoi (fst (scanTo isYStop s3)) = Some y"
    and s4: "s4 = snd (scanTo isYStop s3)"
    unfolding parseGeometry_def by (auto split: option.splits)
  have stop: "s4 = [] \<or> isYStop (hd s4)"
    unfolding s4 scanTo_def using hd_dropWhile[of "\<lambda>c. \<not> isYStop c" s3] by auto
  have "s = ws @ ''x'' @ hs @ '','' @ xs @ '','' @ fst (scanTo isYStop s3) @ s4"
    using cut_Some[OF c1] cut_Some[OF c2] cut_Some[OF c3] scanTo_append[of isYStop s3]
    by (simp add: s4)
  then show ?thesis using a1 a2 a3 a4 stop by blast
qed


lemma parseGeometry_errors:
  "parseGeometry s = Inl e \<Longrightarrow>
     e \<in> {NoXInDimensions, InvalidWidth, NoCommaAfterHeight, InvalidHeight, NoCommaAfterX,
          InvalidX, InvalidY}"
  unfolding parseGeometry_def by (auto split: option.splits prod.splits)

lemma parseNode_fields:
  assumes p: "parseNode n s = Some (Inr (t, r))"
  shows "\<exists>ws hs xs ys tail. s = ws @ ''x'' @ hs @ '','' @ xs @ '','' @ ys @ tail
      \<and> Atoi ws = Some (Width t) \<and> Atoi hs = Some (Height t)
      \<and> Atoi xs = Some (X t) \<and> Atoi ys = Some (Y t)
      \<and> (tail = [] \<or> isYStop (hd tail))
      \<and> (\<forall>rest. tail = CHR '','' # rest \<longrightarrow>
            (\<exists>ps. rest = ps @ r \<and> Atoi ps = Some (PaneID t)))"
proof -
  obtain m where n: "n = Suc m" using p by (cases n) (auto simp: parseNode.simps)
  note p' = p[unfolded n]
  obtain w h x y s4 where g: "parseGeometry s = Inr (w, h, x, y, s4)"
    using p' by (cases "parseGeometry s") (auto simp: parseNode_geometry_error)
  obtain ws hs xs ys where f: "s = ws @ ''x'' @ hs @ '','' @ xs @ '','' @ ys @ s4"
    "Atoi ws = Some w" "Atoi hs = Some h" "Atoi xs = Some x" "Atoi ys = Some y"
    "s4 = [] \<or> isYStop (hd s4)"
    using parseGeometry_fields[OF g] by blast
  have geo: "Width t = w \<and> Height t = h \<and> X t = x \<and> Y t = y"
    and pid: "\<forall>rest. s4 = CHR '','' # rest \<longrightarrow> (\<exists>ps. rest = ps @ r \<and> Atoi ps = Some (PaneID t))"
  proof -
    show "Width t = w \<and> Height t = h \<and> X t = x \<and> Y t = y"
    proof (cases s4)
      case Nil
      then show ?thesis using p' g by (auto simp: parseNode_end)
    next
      case (Cons c s5)
      note g' = g[unfolded Cons]
      consider "c = CHR ''{''" | "c = CHR ''[''" | "c \<noteq> CHR ''{''" "c \<noteq> CHR ''[''" by blast
      then show ?thesis
      proof cases
        case 1
        then show ?thesis using p'
          by (auto simp: parseNode_brace[OF g'[unfolded 1]] split: option.splits sum.splits)
      next
        case 2
        then show ?thesis using p'
          by (auto simp: parseNode_bracket[OF g'[unfolded 2]] split: option.splits sum.splits)
      next
        case 3
        then show ?thesis using p'
          by (auto simp: parseNode_no_split[OF g' 3] split: option.splits if_splits)
      qed
    qed
    show "\<forall>rest. s4 = CHR '','' # rest \<longrightarrow> (\<exists>ps. rest = ps @ r \<and> Atoi ps = Some (PaneID t))"
    proof (intro allI impI)
      fix rest
      assume s4: "s4 = CHR '','' # rest"
      note g' = g[unfolded s4]
      have "Atoi (fst (scanTo isIdStop rest)) = Some (PaneID t) \<and> r = snd (scanTo isIdStop rest)"
        using p' by (auto simp: parseNode_no_split[OF g'] split: option.splits)
      then show "\<exists>ps. rest = ps @ r \<and> Atoi ps = Some (PaneID t)"
        using scanTo_append[of isIdStop rest] by metis
    qed
  qed
  show ?thesis using f geo pid by blast
qed

lemma never_UnexpectedCharacter:
  "(\<forall>s c. parseNode n s \<noteq> Some (Inl (UnexpectedCharacter c))) \<and>
   (\<forall>s e acc c. parseChildren n s e acc \<noteq> Some (Inl (UnexpectedCharacter c)))"
proof (induction n)
  case 0
  show ?case by (simp add: parseNode.simps parseChildren.simps)
next
  case (Suc n)
  have node: "parseNode (Suc n) s \<noteq> Some (Inl (UnexpectedCharacter c))" for s c
  proof (cases "parseGeometry s")
    case (Inl e)
    then show ?thesis using parseGeometry_errors[OF Inl] by (auto simp: parseNode_geometry_error)
  next
    case (Inr g)
    then obtain w h x y s4 where g: "parseGeometry s = Inr (w, h, x, y, s4)"
      by (cases g) auto
    have stop: "s4 = [] \<or> isYStop (hd s4)" using parseGeometry_fields[OF g] by blast
    show ?thesis
    proof (cases s4)
      case Nil
      then show ?thesis using g by (simp add: parseNode_end)
    next
      case (Cons d s5)
      note g' = g[unfolded Cons]
      consider "d = CHR ''{''" | "d = CHR ''[''" | "d \<noteq> CHR ''{''" "d \<noteq> CHR ''[''" by blast
      then show ?thesis
      proof cases
        case 1
        show ?thesis using Suc.IH
          by (auto simp: parseNode_brace[OF g'[unfolded 1]] split: option.splits sum.splits)
      next
        case 2
        show ?thesis using Suc.IH
          by (auto simp: parseNode_bracket[OF g'[unfolded 2]] split: option.splits sum.splits)
      next
        case 3
        have "d = CHR '','' \<or> d = CHR ''}'' \<or> d = CHR '']''"
          using stop Cons 3 by (simp add: isYStop_def)
        then show ?thesis
          by (auto simp: parseNode_no_split[OF g' 3] split: option.splits)
      qed
    qed
  qed
  have children: "parseChildren (Suc n) s e acc \<noteq> Some (Inl (UnexpectedCharacter c))" for s e acc c
  proof (cases "s \<noteq> [] \<and> hd s \<noteq> e")
    case False
    then have st: "s = [] \<or> hd s = e" by blast
    show ?thesis by (simp add: parseChildren_stop[OF st])
  next
    case True
    then have ne: "s \<noteq> []" and hd: "hd s \<noteq> e" by blast+
    show ?thesis using Suc.IH
      by (auto simp: parseChildren_step[OF ne hd] split: option.splits sum.splits)
  qed
  show ?case using node children by blast
qed

lemma scanTo_stops:
  "list_all (\<lambda>c. \<not> stop c) (fst (scanTo stop s))
   \<and> (snd (scanTo stop s) = [] \<or> stop (hd (snd (scanTo stop s))))"
proof -
  have "list_all (\<lambda>c. \<not> stop c) (takeWhile (\<lambda>c. \<not> stop c) s)"
    by (auto simp: list_all_iff dest: set_takeWhileD)
  moreover have "dropWhile (\<lambda>c. \<not> stop c) s = [] \<or> stop (hd (dropWhile (\<lambda>c. \<not> stop c) s))"
    using hd_dropWhile[of "\<lambda>c. \<not> stop c" s] by auto
  ultimately show ?thesis by (simp add: scanTo_def)
qed

lemma geometryFields_iff:
  "parseGeometry s = Inr (w, h, x, y, rest) \<longleftrightarrow> geometryFields s w h x y rest"
proof
  assume g: "parseGeometry s = Inr (w, h, x, y, rest)"
  then obtain ws s1 where c1: "cut (CHR ''x'') s = Some (ws, s1)"
    unfolding parseGeometry_def by (auto split: option.splits)
  with g have a1: "Atoi ws = Some w"
    unfolding parseGeometry_def by (auto split: option.splits)
  from g c1 a1 obtain hs s2 where c2: "cut (CHR '','') s1 = Some (hs, s2)"
    unfolding parseGeometry_def by (auto split: option.splits)
  with g c1 a1 have a2: "Atoi hs = Some h"
    unfolding parseGeometry_def by (auto split: option.splits)
  from g c1 a1 c2 a2 obtain xs s3 where c3: "cut (CHR '','') s2 = Some (xs, s3)"
    unfolding parseGeometry_def by (auto split: option.splits)
  with g c1 a1 c2 a2 have a3: "Atoi xs = Some x"
    unfolding parseGeometry_def by (auto split: option.splits)
  from g c1 a1 c2 a2 c3 a3 have a4: "Atoi (fst (scanTo isYStop s3)) = Some y"
    and r: "rest = snd (scanTo isYStop s3)"
    unfolding parseGeometry_def by (auto split: option.splits)
  have "s = ws @ ''x'' @ hs @ '','' @ xs @ '','' @ fst (scanTo isYStop s3) @ rest"
    using cut_Some[OF c1] cut_Some[OF c2] cut_Some[OF c3] scanTo_append[of isYStop s3]
    by (simp add: r)
  then show "geometryFields s w h x y rest"
    unfolding geometryFields_def
    using cut_Some[OF c1] cut_Some[OF c2] cut_Some[OF c3] scanTo_stops[of isYStop s3]
      a1 a2 a3 a4 r by blast
next
  assume "geometryFields s w h x y rest"
  then obtain ws hs xs ys where s: "s = ws @ ''x'' @ hs @ '','' @ xs @ '','' @ ys @ rest"
    and n: "CHR ''x'' \<notin> set ws" "CHR '','' \<notin> set hs" "CHR '','' \<notin> set xs"
    and ys: "list_all (\<lambda>c. \<not> isYStop c) ys" and r: "rest = [] \<or> isYStop (hd rest)"
    and a: "Atoi ws = Some w" "Atoi hs = Some h" "Atoi xs = Some x" "Atoi ys = Some y"
    unfolding geometryFields_def by blast
  have s': "s = ws @ CHR ''x'' # hs @ CHR '','' # xs @ CHR '','' # ys @ rest"
    by (simp add: s)
  have c1: "cut (CHR ''x'') s = Some (ws, hs @ CHR '','' # xs @ CHR '','' # ys @ rest)"
    unfolding s' using n(1) by (rule cut_append)
  have c2: "cut (CHR '','') (hs @ CHR '','' # xs @ CHR '','' # ys @ rest)
      = Some (hs, xs @ CHR '','' # ys @ rest)"
    using n(2) by (rule cut_append)
  have c3: "cut (CHR '','') (xs @ CHR '','' # ys @ rest) = Some (xs, ys @ rest)"
    using n(3) by (rule cut_append)
  have sc: "scanTo isYStop (ys @ rest) = (ys, rest)"
    using ys r by (rule scanTo_prefix[where stop = isYStop])
  show "parseGeometry s = Inr (w, h, x, y, rest)"
    by (simp add: parseGeometry_def c1 c2 c3 sc a)
qed

lemma parse_sound:
  "(\<forall>s t r. parseNode n s = Some (Inr (t, r)) \<longrightarrow> lenientNode s t r) \<and>
   (\<forall>s e acc cs r. parseChildren n s e acc = Some (Inr (cs, r)) \<longrightarrow>
       (\<exists>new. cs = acc @ new \<and> lenientChildren e s new r))"
proof (induction n)
  case 0
  show ?case by (simp add: parseNode.simps parseChildren.simps)
next
  case (Suc n)
  have node: "lenientNode s t r" if p: "parseNode (Suc n) s = Some (Inr (t, r))" for s t r
  proof (cases "parseGeometry s")
    case (Inl e)
    then show ?thesis using p by (simp add: parseNode_geometry_error)
  next
    case (Inr g)
    then obtain w h x y s4 where g: "parseGeometry s = Inr (w, h, x, y, s4)"
      by (cases g) auto
    note gt = g[unfolded geometryFields_iff]
    show ?thesis
    proof (cases s4)
      case Nil
      then have "t = LayoutNode w h x y (- 1) SplitNone []" "r = []"
        using p g by (auto simp add: parseNode_end)
      then show ?thesis using gt Nil by (auto intro: leafAtEnd)
    next
      case (Cons c s5)
      note g' = g[unfolded Cons]
      note gt' = gt[unfolded Cons]
      consider "c = CHR ''{''" | "c = CHR ''[''" | "c \<noteq> CHR ''{''" "c \<noteq> CHR ''[''" by blast
      then show ?thesis
      proof cases
        case 1
        from p obtain cs where cs: "parseChildren n s5 (CHR ''}'') [] = Some (Inr (cs, r))"
          and t: "t = LayoutNode w h x y (- 1) SplitHorizontal cs"
          by (auto simp add: parseNode_brace[OF g'[unfolded 1]] split: option.splits sum.splits)
        have "lenientChildren (CHR ''}'') s5 cs r" using Suc.IH cs by fastforce
        then show ?thesis unfolding t using gt'[unfolded 1] by (auto intro: widthSplit)
      next
        case 2
        from p obtain cs where cs: "parseChildren n s5 (CHR '']'') [] = Some (Inr (cs, r))"
          and t: "t = LayoutNode w h x y (- 1) SplitVertical cs"
          by (auto simp add: parseNode_bracket[OF g'[unfolded 2]] split: option.splits sum.splits)
        have "lenientChildren (CHR '']'') s5 cs r" using Suc.IH cs by fastforce
        then show ?thesis unfolding t using gt'[unfolded 2] by (auto intro: heightSplit)
      next
        case 3
        show ?thesis
        proof (cases "c = CHR '',''")
          case True
          define ps where "ps = fst (scanTo isIdStop s5)"
          from p obtain paneID where a: "Atoi ps = Some paneID"
            and t: "t = LayoutNode w h x y paneID SplitNone []"
            and r: "r = snd (scanTo isIdStop s5)"
            by (auto simp add: parseNode_no_split[OF g' 3] True ps_def split: option.splits)
          have s5: "s5 = ps @ r" using scanTo_append[of isIdStop s5] by (simp add: ps_def r)
          have st: "list_all (\<lambda>c. \<not> isIdStop c) ps" "r = [] \<or> isIdStop (hd r)"
            using scanTo_stops[of isIdStop s5] by (simp_all add: ps_def r)
          have "geometryFields s w h x y (CHR '','' # ps @ r)" using gt' True s5 by simp
          then show ?thesis unfolding t using st a by (rule leafWithID)
        next
          case False
          then have c: "c = CHR ''}'' \<or> c = CHR '']''"
            and t: "t = LayoutNode w h x y (- 1) SplitNone []" and r: "r = c # s5"
            using p by (auto simp add: parseNode_no_split[OF g' 3] split: if_splits)
          show ?thesis unfolding t r using gt' c by (rule leafBeforeClose)
        qed
      qed
    qed
  qed
  have children: "\<exists>new. cs = acc @ new \<and> lenientChildren e s new r"
    if p: "parseChildren (Suc n) s e acc = Some (Inr (cs, r))" for s e acc cs r
  proof (cases "s \<noteq> [] \<and> hd s \<noteq> e")
    case False
    then have st: "s = [] \<or> hd s = e" by blast
    have "cs = acc" "r = skipChar e s" using p by (simp_all add: parseChildren_stop[OF st])
    then show ?thesis using listEnds[OF st] by simp
  next
    case True
    then have ne: "s \<noteq> []" and hd: "hd s \<noteq> e" by blast+
    from p obtain child rest where c: "parseNode n s = Some (Inr (child, rest))"
      and q: "parseChildren n (skipChar (CHR '','') rest) e (acc @ [child]) = Some (Inr (cs, r))"
      by (auto simp add: parseChildren_step[OF ne hd] split: option.splits sum.splits)
    have nt: "lenientNode s child rest" using Suc.IH c by blast
    obtain new where new: "cs = (acc @ [child]) @ new"
      and ct: "lenientChildren e (skipChar (CHR '','') rest) new r"
      using Suc.IH q by blast
    have "lenientChildren e s (child # new) r" using ne hd nt ct by (rule listGoesOn)
    then show ?thesis using new by auto
  qed
  show ?case using node children by blast
qed

lemma parse_complete:
  "(lenientNode s t r \<longrightarrow> (\<exists>n. parseNode n s = Some (Inr (t, r)))) \<and>
   (lenientChildren e body cs r' \<longrightarrow>
      (\<forall>acc. \<exists>n. parseChildren n body e acc = Some (Inr (acc @ cs, r'))))"
proof (induction rule: lenientNode_lenientChildren.induct)
  case (leafAtEnd s w h x y)
  then have "parseNode (Suc 0) s = Some (Inr (LayoutNode w h x y (- 1) SplitNone [], []))"
    by (simp add: geometryFields_iff[symmetric] parseNode_end)
  then show ?case by blast
next
  case (leafBeforeClose s w h x y c r)
  then have g: "parseGeometry s = Inr (w, h, x, y, c # r)" and c: "c = CHR ''}'' \<or> c = CHR '']''"
    by (simp_all add: geometryFields_iff)
  have "parseNode (Suc 0) s = Some (Inr (LayoutNode w h x y (- 1) SplitNone [], c # r))"
    using c by (subst parseNode_no_split[OF g]) auto
  then show ?case by blast
next
  case (leafWithID s w h x y ps r paneID)
  then have g: "parseGeometry s = Inr (w, h, x, y, CHR '','' # ps @ r)"
    by (simp add: geometryFields_iff)
  have sc: "scanTo isIdStop (ps @ r) = (ps, r)"
    using leafWithID(2,3) by (rule scanTo_prefix[where stop = isIdStop])
  have "parseNode (Suc 0) s = Some (Inr (LayoutNode w h x y paneID SplitNone [], r))"
    using leafWithID(4) by (subst parseNode_no_split[OF g]) (simp_all add: sc)
  then show ?case by blast
next
  case (widthSplit s w h x y body cs r)
  then have g: "parseGeometry s = Inr (w, h, x, y, CHR ''{'' # body)"
    by (simp add: geometryFields_iff)
  obtain n where "parseChildren n body (CHR ''}'') [] = Some (Inr ([] @ cs, r))"
    using widthSplit.IH by blast
  then have "parseNode (Suc n) s = Some (Inr (LayoutNode w h x y (- 1) SplitHorizontal cs, r))"
    by (subst parseNode_brace[OF g]) simp
  then show ?case by blast
next
  case (heightSplit s w h x y body cs r)
  then have g: "parseGeometry s = Inr (w, h, x, y, CHR ''['' # body)"
    by (simp add: geometryFields_iff)
  obtain n where "parseChildren n body (CHR '']'') [] = Some (Inr ([] @ cs, r))"
    using heightSplit.IH by blast
  then have "parseNode (Suc n) s = Some (Inr (LayoutNode w h x y (- 1) SplitVertical cs, r))"
    by (subst parseNode_bracket[OF g]) simp
  then show ?case by blast
next
  case (listEnds body e)
  have "parseChildren (Suc 0) body e acc = Some (Inr (acc @ [], skipChar e body))" for acc
    using parseChildren_stop[OF listEnds] by simp
  then show ?case by blast
next
  case (listGoesOn body e c rest cs r)
  show ?case
  proof
    fix acc
    obtain n1 where n1: "parseNode n1 body = Some (Inr (c, rest))"
      using listGoesOn.IH(1) by blast
    obtain n2 where n2: "parseChildren n2 (skipChar (CHR '','') rest) e (acc @ [c])
        = Some (Inr ((acc @ [c]) @ cs, r))"
      using listGoesOn.IH(2) by blast
    define m where "m = max n1 n2"
    have a: "parseNode m body = Some (Inr (c, rest))"
      using node_mono[OF n1, of m] by (simp add: m_def)
    have b: "parseChildren m (skipChar (CHR '','') rest) e (acc @ [c])
        = Some (Inr ((acc @ [c]) @ cs, r))"
      using children_mono[OF n2, of m] by (simp add: m_def)
    have "parseChildren (Suc m) body e acc = Some (Inr (acc @ c # cs, r))"
      by (simp add: parseChildren_step[OF listGoesOn.hyps(1,2)] a b)
    then show "\<exists>n. parseChildren n body e acc = Some (Inr (acc @ c # cs, r))" by blast
  qed
qed

lemma ParseLayout_lenientLayout: "ParseLayout s = Some (Inr t) \<longleftrightarrow> lenientLayout s t"
proof
  assume p: "ParseLayout s = Some (Inr t)"
  then obtain ck body where c: "cut (CHR '','') s = Some (ck, body)"
    by (auto simp: ParseLayout_def split: option.splits)
  with p obtain r where "parseNode (2 * length body + 2) body = Some (Inr (t, r))"
    by (auto simp: ParseLayout_def split: option.splits sum.splits)
  then have "lenientNode body t r" using conjunct1[OF parse_sound] by blast
  then show "lenientLayout s t"
    unfolding lenientLayout_def using cut_Some[OF c] by auto
next
  assume "lenientLayout s t"
  then obtain ck body r where s: "s = ck @ CHR '','' # body" and ck: "CHR '','' \<notin> set ck"
    and nt: "lenientNode body t r"
    unfolding lenientLayout_def by auto
  have c: "cut (CHR '','') s = Some (ck, body)" unfolding s using ck by (rule cut_append)
  obtain n where n: "parseNode n body = Some (Inr (t, r))"
    using conjunct1[OF parse_complete] nt by blast
  define m where "m = max n (2 * length body + 2)"
  have a: "parseNode m body = Some (Inr (t, r))"
    using node_mono[OF n, of m] by (simp add: m_def)
  obtain v where v: "parseNode (2 * length body + 2) body = Some v"
    using conjunct1[OF parse_enough_fuel[of "2 * length body + 2"]] by fastforce
  have "parseNode m body = Some v"
    using node_mono[OF v, of m] by (simp add: m_def)
  then have "v = Inr (t, r)" using a by simp
  then show "ParseLayout s = Some (Inr t)" using v by (simp add: ParseLayout_def c)
qed

lemma geometryError_iff: "parseGeometry s = Inl err \<longleftrightarrow> geometryError s err"
proof
  assume g: "parseGeometry s = Inl err"
  show "geometryError s err"
  proof (cases "cut (CHR ''x'') s")
    case None
    then have "err = NoXInDimensions" using g by (simp add: parseGeometry_def)
    moreover have "CHR ''x'' \<notin> set s" using None by (simp add: cut_None)
    ultimately show ?thesis by (simp add: noX)
  next
    case (Some p1)
    then obtain ws s1 where c1: "cut (CHR ''x'') s = Some (ws, s1)" by (cases p1) auto
    have s: "s = ws @ ''x'' @ s1" and nx: "CHR ''x'' \<notin> set ws"
      using cut_Some[OF c1] by simp_all
    show ?thesis
    proof (cases "Atoi ws")
      case None
      then have e: "err = InvalidWidth" using g by (simp add: parseGeometry_def c1)
      show ?thesis unfolding s e using nx None by (rule badWidth)
    next
      case (Some w)
      note a1 = Some
      show ?thesis
      proof (cases "cut (CHR '','') s1")
        case None
        then have e: "err = NoCommaAfterHeight" using g by (simp add: parseGeometry_def c1 a1)
        have "CHR '','' \<notin> set s1" using None by (simp add: cut_None)
        with nx a1 show ?thesis unfolding s e by (rule noCommaAfterHeight)
      next
        case (Some p2)
        then obtain hs s2 where c2: "cut (CHR '','') s1 = Some (hs, s2)" by (cases p2) auto
        have s1: "s1 = hs @ '','' @ s2" and nh: "CHR '','' \<notin> set hs"
          using cut_Some[OF c2] by simp_all
        show ?thesis
        proof (cases "Atoi hs")
          case None
          then have e: "err = InvalidHeight" using g by (simp add: parseGeometry_def c1 a1 c2)
          show ?thesis unfolding s s1 e using nx a1 nh None by (rule badHeight)
        next
          case (Some h)
          note a2 = Some
          show ?thesis
          proof (cases "cut (CHR '','') s2")
            case None
            then have e: "err = NoCommaAfterX"
              using g by (simp add: parseGeometry_def c1 a1 c2 a2)
            have "CHR '','' \<notin> set s2" using None by (simp add: cut_None)
            with nx a1 nh a2 show ?thesis unfolding s s1 e by (rule noCommaAfterX)
          next
            case (Some p3)
            then obtain xs s3 where c3: "cut (CHR '','') s2 = Some (xs, s3)" by (cases p3) auto
            have s2: "s2 = xs @ '','' @ s3" and nc: "CHR '','' \<notin> set xs"
              using cut_Some[OF c3] by simp_all
            show ?thesis
            proof (cases "Atoi xs")
              case None
              then have e: "err = InvalidX"
                using g by (simp add: parseGeometry_def c1 a1 c2 a2 c3)
              show ?thesis unfolding s s1 s2 e using nx a1 nh a2 nc None by (rule badX)
            next
              case (Some x)
              note a3 = Some
              define ys where "ys = fst (scanTo isYStop s3)"
              define r where "r = snd (scanTo isYStop s3)"
              have s3: "s3 = ys @ r" using scanTo_append[of isYStop s3] by (simp add: ys_def r_def)
              have st: "list_all (\<lambda>c. \<not> isYStop c) ys" "r = [] \<or> isYStop (hd r)"
                using scanTo_stops[of isYStop s3] by (simp_all add: ys_def r_def)
              have a4: "Atoi ys = None" and e: "err = InvalidY"
                using g by (auto simp add: parseGeometry_def c1 a1 c2 a2 c3 a3 ys_def
                    split: option.splits)
              show ?thesis unfolding s s1 s2 s3 e using nx a1 nh a2 nc a3 st a4 by (rule badY)
            qed
          qed
        qed
      qed
    qed
  qed
next
  assume "geometryError s err"
  then show "parseGeometry s = Inl err"
  proof cases
    case noX
    then have "cut (CHR ''x'') s = None" by (simp add: cut_None)
    then show ?thesis using noX by (simp add: parseGeometry_def)
  next
    case (badWidth ws r)
    have c1: "cut (CHR ''x'') (ws @ CHR ''x'' # r) = Some (ws, r)"
      using badWidth(3) by (rule cut_append)
    show ?thesis using badWidth by (simp add: parseGeometry_def c1)
  next
    case (noCommaAfterHeight ws w r)
    have c1: "cut (CHR ''x'') (ws @ CHR ''x'' # r) = Some (ws, r)"
      using noCommaAfterHeight(3) by (rule cut_append)
    have c2: "cut (CHR '','') r = None" using noCommaAfterHeight(5) by (simp add: cut_None)
    show ?thesis using noCommaAfterHeight by (simp add: parseGeometry_def c1 c2)
  next
    case (badHeight ws w hs r)
    have c1: "cut (CHR ''x'') (ws @ CHR ''x'' # hs @ CHR '','' # r) = Some (ws, hs @ CHR '','' # r)"
      using badHeight(3) by (rule cut_append)
    have c2: "cut (CHR '','') (hs @ CHR '','' # r) = Some (hs, r)"
      using badHeight(5) by (rule cut_append)
    show ?thesis using badHeight by (simp add: parseGeometry_def c1 c2)
  next
    case (noCommaAfterX ws w hs h r)
    have c1: "cut (CHR ''x'') (ws @ CHR ''x'' # hs @ CHR '','' # r) = Some (ws, hs @ CHR '','' # r)"
      using noCommaAfterX(3) by (rule cut_append)
    have c2: "cut (CHR '','') (hs @ CHR '','' # r) = Some (hs, r)"
      using noCommaAfterX(5) by (rule cut_append)
    have c3: "cut (CHR '','') r = None" using noCommaAfterX(7) by (simp add: cut_None)
    show ?thesis using noCommaAfterX by (simp add: parseGeometry_def c1 c2 c3)
  next
    case (badX ws w hs h xs r)
    have c1: "cut (CHR ''x'') (ws @ CHR ''x'' # hs @ CHR '','' # xs @ CHR '','' # r)
        = Some (ws, hs @ CHR '','' # xs @ CHR '','' # r)"
      using badX(3) by (rule cut_append)
    have c2: "cut (CHR '','') (hs @ CHR '','' # xs @ CHR '','' # r) = Some (hs, xs @ CHR '','' # r)"
      using badX(5) by (rule cut_append)
    have c3: "cut (CHR '','') (xs @ CHR '','' # r) = Some (xs, r)"
      using badX(7) by (rule cut_append)
    show ?thesis using badX by (simp add: parseGeometry_def c1 c2 c3)
  next
    case (badY ws w hs h xs x ys r)
    have c1: "cut (CHR ''x'') (ws @ CHR ''x'' # hs @ CHR '','' # xs @ CHR '','' # ys @ r)
        = Some (ws, hs @ CHR '','' # xs @ CHR '','' # ys @ r)"
      using badY(3) by (rule cut_append)
    have c2: "cut (CHR '','') (hs @ CHR '','' # xs @ CHR '','' # ys @ r)
        = Some (hs, xs @ CHR '','' # ys @ r)"
      using badY(5) by (rule cut_append)
    have c3: "cut (CHR '','') (xs @ CHR '','' # ys @ r) = Some (xs, ys @ r)"
      using badY(7) by (rule cut_append)
    have sc: "scanTo isYStop (ys @ r) = (ys, r)"
      using badY(9,10) by (rule scanTo_prefix[where stop = isYStop])
    show ?thesis using badY by (simp add: parseGeometry_def c1 c2 c3 sc)
  qed
qed

lemma error_sound:
  "(\<forall>s err. parseNode n s = Some (Inl err) \<longrightarrow> nodeError s err) \<and>
   (\<forall>s e acc err. parseChildren n s e acc = Some (Inl err) \<longrightarrow> childrenError e s err)"
proof (induction n)
  case 0
  show ?case by (simp add: parseNode.simps parseChildren.simps)
next
  case (Suc n)
  have node: "nodeError s err" if p: "parseNode (Suc n) s = Some (Inl err)" for s err
  proof (cases "parseGeometry s")
    case (Inl e)
    then have "e = err" using p by (simp add: parseNode_geometry_error)
    then show ?thesis using Inl by (simp add: geometryError_iff badGeometry)
  next
    case (Inr g)
    then obtain w h x y s4 where g: "parseGeometry s = Inr (w, h, x, y, s4)"
      by (cases g) auto
    note gt = g[unfolded geometryFields_iff]
    show ?thesis
    proof (cases s4)
      case Nil
      then show ?thesis using p g by (simp add: parseNode_end)
    next
      case (Cons c s5)
      note g' = g[unfolded Cons]
      note gt' = gt[unfolded Cons]
      consider "c = CHR ''{''" | "c = CHR ''[''" | "c \<noteq> CHR ''{''" "c \<noteq> CHR ''[''" by blast
      then show ?thesis
      proof cases
        case 1
        from p have "parseChildren n s5 (CHR ''}'') [] = Some (Inl err)"
          by (auto simp add: parseNode_brace[OF g'[unfolded 1]] split: option.splits sum.splits)
        then have "childrenError (CHR ''}'') s5 err" using Suc.IH by blast
        then show ?thesis using gt'[unfolded 1] by (auto intro: inWidthSplit)
      next
        case 2
        from p have "parseChildren n s5 (CHR '']'') [] = Some (Inl err)"
          by (auto simp add: parseNode_bracket[OF g'[unfolded 2]] split: option.splits sum.splits)
        then have "childrenError (CHR '']'') s5 err" using Suc.IH by blast
        then show ?thesis using gt'[unfolded 2] by (auto intro: inHeightSplit)
      next
        case 3
        have stop: "isYStop c" using gt' by (auto simp add: geometryFields_def)
        have "c = CHR '','' \<or> c = CHR ''}'' \<or> c = CHR '']''"
          using stop 3 by (simp add: isYStop_def)
        then have cc: "c = CHR '',''"
          using p by (auto simp add: parseNode_no_split[OF g' 3] split: if_splits)
        define ps where "ps = fst (scanTo isIdStop s5)"
        define r where "r = snd (scanTo isIdStop s5)"
        have a: "Atoi ps = None" and e: "err = InvalidPaneID"
          using p by (auto simp add: parseNode_no_split[OF g' 3] cc ps_def split: option.splits)
        have s5: "s5 = ps @ r" using scanTo_append[of isIdStop s5] by (simp add: ps_def r_def)
        have st: "list_all (\<lambda>c. \<not> isIdStop c) ps" "r = [] \<or> isIdStop (hd r)"
          using scanTo_stops[of isIdStop s5] by (simp_all add: ps_def r_def)
        have "geometryFields s w h x y (CHR '','' # ps @ r)" using gt' cc s5 by simp
        then show ?thesis unfolding e using st a by (rule badPaneID)
      qed
    qed
  qed
  have children: "childrenError e s err"
    if p: "parseChildren (Suc n) s e acc = Some (Inl err)" for s e acc err
  proof (cases "s \<noteq> [] \<and> hd s \<noteq> e")
    case False
    then have st: "s = [] \<or> hd s = e" by blast
    show ?thesis using p by (simp add: parseChildren_stop[OF st])
  next
    case True
    then have ne: "s \<noteq> []" and hd: "hd s \<noteq> e" by blast+
    from p consider "parseNode n s = Some (Inl err)"
      | child rest where "parseNode n s = Some (Inr (child, rest))"
          "parseChildren n (skipChar (CHR '','') rest) e (acc @ [child]) = Some (Inl err)"
      by (auto simp add: parseChildren_step[OF ne hd] split: option.splits sum.splits)
    then show ?thesis
    proof cases
      case 1
      then have "nodeError s err" using Suc.IH by blast
      with ne hd show ?thesis by (rule thisChild)
    next
      case 2
      have nt: "lenientNode s child rest" using conjunct1[OF parse_sound] 2(1) by blast
      have "childrenError e (skipChar (CHR '','') rest) err" using Suc.IH 2(2) by blast
      with ne hd nt show ?thesis by (rule laterChild)
    qed
  qed
  show ?case using node children by blast
qed

lemma error_complete:
  "(nodeError s err \<longrightarrow> (\<exists>n. parseNode n s = Some (Inl err))) \<and>
   (childrenError e body err' \<longrightarrow> (\<forall>acc. \<exists>n. parseChildren n body e acc = Some (Inl err')))"
proof (induction rule: nodeError_childrenError.induct)
  case (badGeometry s err)
  then have "parseNode (Suc 0) s = Some (Inl err)"
    by (simp add: geometryError_iff[symmetric] parseNode_geometry_error)
  then show ?case by blast
next
  case (badPaneID s w h x y ps r)
  then have g: "parseGeometry s = Inr (w, h, x, y, CHR '','' # ps @ r)"
    by (simp add: geometryFields_iff)
  have sc: "scanTo isIdStop (ps @ r) = (ps, r)"
    using badPaneID(2,3) by (rule scanTo_prefix[where stop = isIdStop])
  have "parseNode (Suc 0) s = Some (Inl InvalidPaneID)"
    using badPaneID(4) by (subst parseNode_no_split[OF g]) (simp_all add: sc)
  then show ?case by blast
next
  case (inWidthSplit s w h x y body err)
  then have g: "parseGeometry s = Inr (w, h, x, y, CHR ''{'' # body)"
    by (simp add: geometryFields_iff)
  obtain n where "parseChildren n body (CHR ''}'') [] = Some (Inl err)"
    using inWidthSplit.IH by blast
  then have "parseNode (Suc n) s = Some (Inl err)"
    by (subst parseNode_brace[OF g]) simp
  then show ?case by blast
next
  case (inHeightSplit s w h x y body err)
  then have g: "parseGeometry s = Inr (w, h, x, y, CHR ''['' # body)"
    by (simp add: geometryFields_iff)
  obtain n where "parseChildren n body (CHR '']'') [] = Some (Inl err)"
    using inHeightSplit.IH by blast
  then have "parseNode (Suc n) s = Some (Inl err)"
    by (subst parseNode_bracket[OF g]) simp
  then show ?case by blast
next
  case (thisChild body e err)
  then obtain n where n: "parseNode n body = Some (Inl err)" by blast
  have "parseChildren (Suc n) body e acc = Some (Inl err)" for acc
    by (simp add: parseChildren_step[OF thisChild.hyps(1,2)] n)
  then show ?case by blast
next
  case (laterChild body e c rest err)
  show ?case
  proof
    fix acc
    obtain n1 where n1: "parseNode n1 body = Some (Inr (c, rest))"
      using conjunct1[OF parse_complete] laterChild.hyps(3) by blast
    obtain n2 where n2: "parseChildren n2 (skipChar (CHR '','') rest) e (acc @ [c]) = Some (Inl err)"
      using laterChild.IH by blast
    define m where "m = max n1 n2"
    have a: "parseNode m body = Some (Inr (c, rest))"
      using node_mono[OF n1, of m] by (simp add: m_def)
    have b: "parseChildren m (skipChar (CHR '','') rest) e (acc @ [c]) = Some (Inl err)"
      using children_mono[OF n2, of m] by (simp add: m_def)
    have "parseChildren (Suc m) body e acc = Some (Inl err)"
      by (simp add: parseChildren_step[OF laterChild.hyps(1,2)] a b)
    then show "\<exists>n. parseChildren n body e acc = Some (Inl err)" by blast
  qed
qed

lemma ParseLayout_layoutError: "ParseLayout s = Some (Inl err) \<longleftrightarrow> layoutError s err"
proof (cases "cut (CHR '','') s")
  case None
  then have "CHR '','' \<notin> set s" by (simp add: cut_None)
  moreover have "ParseLayout s = Some (Inl NoChecksumSeparator)"
    using None by (simp add: ParseLayout_def)
  ultimately show ?thesis by (auto simp add: layoutError_def)
next
  case (Some p)
  then obtain ck body where c: "cut (CHR '','') s = Some (ck, body)" by (cases p) auto
  have s: "s = ck @ CHR '','' # body" and ck: "CHR '','' \<notin> set ck"
    using cut_Some[OF c] by simp_all
  obtain v where v: "parseNode (2 * length body + 2) body = Some v"
    using conjunct1[OF parse_enough_fuel[of "2 * length body + 2"]] by fastforce
  have pl: "ParseLayout s = Some (Inl err) \<longleftrightarrow> v = Inl err"
    using v by (auto simp add: ParseLayout_def c split: sum.splits)
  have ne: "nodeError body err \<longleftrightarrow> v = Inl err"
  proof
    assume "nodeError body err"
    then obtain n where n: "parseNode n body = Some (Inl err)"
      using conjunct1[OF error_complete] by blast
    define m where "m = max n (2 * length body + 2)"
    have "parseNode m body = Some (Inl err)" using node_mono[OF n, of m] by (simp add: m_def)
    moreover have "parseNode m body = Some v" using node_mono[OF v, of m] by (simp add: m_def)
    ultimately show "v = Inl err" by simp
  next
    assume "v = Inl err"
    then show "nodeError body err" using v conjunct1[OF error_sound] by blast
  qed
  have le: "layoutError s err \<longleftrightarrow> nodeError body err"
  proof
    assume "layoutError s err"
    then obtain ck' body' where s': "s = ck' @ CHR '','' # body'" and ck': "CHR '','' \<notin> set ck'"
      and n: "nodeError body' err"
      unfolding layoutError_def using s by auto
    have "cut (CHR '','') s = Some (ck', body')" unfolding s' using ck' by (rule cut_append)
    then have "body' = body" using c by simp
    then show "nodeError body err" using n by simp
  next
    assume "nodeError body err"
    then show "layoutError s err" unfolding layoutError_def using s ck by auto
  qed
  show ?thesis using pl ne le by simp
qed

text \<open>
  C6 (amended). \<open>ParseLayout\<close> returns a tree exactly for the texts of the lenient grammar
  \<open>lenientLayout\<close>, and the tree of the grammar; it returns an error exactly for the texts of
  \<open>layoutError\<close>, and that error; and it fails if and only if the text has no tree in the
  grammar. In the grammar, the width, height, x, y and pane-id substrings of every node, at
  any depth and at any position of a children list, are valid integers: a substring that is
  not a valid integer, anywhere the decoder reads, makes the whole decode fail, also in a
  second or later child (\<open>laterChild\<close>). So does an input without a comma. Step by step:
  whenever \<open>parseNode\<close> returns a node, the substrings it cut out are valid integers, and a
  failed \<open>parseNode\<close> of a child makes \<open>parseChildren\<close>, the enclosing \<open>parseNode\<close> and
  \<open>ParseLayout\<close> fail with the same error. The error for an unexpected character is never
  returned: the text after y starts with one of the five delimiters or is empty, and a stray
  character ends up in a number. Unmatched brackets are not rejected: they belong to the
  lenient grammar (\<open>listEnds\<close>, \<open>leafBeforeClose\<close>).
\<close>

theorem ParseLayout_rejects:
  "(CHR '','' \<notin> set s \<longrightarrow> ParseLayout s = Some (Inl NoChecksumSeparator))
   \<and> (\<forall>t. (ParseLayout s = Some (Inr t)) = lenientLayout s t)
   \<and> (\<forall>err. (ParseLayout s = Some (Inl err)) = layoutError s err)
   \<and> ((\<exists>err. ParseLayout s = Some (Inl err)) = (\<not> (\<exists>t. lenientLayout s t)))
   \<and> (\<forall>n t r. parseNode n s = Some (Inr (t, r)) \<longrightarrow>
        (\<exists>ws hs xs ys tail. s = ws @ ''x'' @ hs @ '','' @ xs @ '','' @ ys @ tail
           \<and> Atoi ws = Some (Width t) \<and> Atoi hs = Some (Height t)
           \<and> Atoi xs = Some (X t) \<and> Atoi ys = Some (Y t)
           \<and> (tail = [] \<or> isYStop (hd tail))
           \<and> (\<forall>rest. tail = CHR '','' # rest \<longrightarrow>
                 (\<exists>ps. rest = ps @ r \<and> Atoi ps = Some (PaneID t)))))
   \<and> (\<forall>n e acc err. s \<noteq> [] \<and> hd s \<noteq> e \<and> parseNode n s = Some (Inl err) \<longrightarrow>
        parseChildren (Suc n) s e acc = Some (Inl err))
   \<and> (\<forall>n w h x y s5 err. parseGeometry s = Inr (w, h, x, y, CHR ''{'' # s5)
          \<and> parseChildren n s5 (CHR ''}'') [] = Some (Inl err) \<longrightarrow>
        parseNode (Suc n) s = Some (Inl err))
   \<and> (\<forall>n w h x y s5 err. parseGeometry s = Inr (w, h, x, y, CHR ''['' # s5)
          \<and> parseChildren n s5 (CHR '']'') [] = Some (Inl err) \<longrightarrow>
        parseNode (Suc n) s = Some (Inl err))
   \<and> (\<forall>ck rest err. cut (CHR '','') s = Some (ck, rest)
          \<and> parseNode (2 * length rest + 2) rest = Some (Inl err) \<longrightarrow>
        ParseLayout s = Some (Inl err))
   \<and> (\<forall>c. ParseLayout s \<noteq> Some (Inl (UnexpectedCharacter c)))"
proof (intro conjI allI impI)
  assume "CHR '','' \<notin> set s"
  then have "cut (CHR '','') s = None" by (simp add: cut_None)
  then show "ParseLayout s = Some (Inl NoChecksumSeparator)" by (simp add: ParseLayout_def)
next
  fix t
  show "(ParseLayout s = Some (Inr t)) = lenientLayout s t" by (rule ParseLayout_lenientLayout)
next
  fix err
  show "(ParseLayout s = Some (Inl err)) = layoutError s err" by (rule ParseLayout_layoutError)
next
  have "\<exists>v. ParseLayout s = Some v"
  proof (cases "cut (CHR '','') s")
    case None
    then show ?thesis by (simp add: ParseLayout_def)
  next
    case (Some p)
    then obtain ck body where c: "cut (CHR '','') s = Some (ck, body)" by (cases p) auto
    obtain v where v: "parseNode (2 * length body + 2) body = Some v"
      using conjunct1[OF parse_enough_fuel[of "2 * length body + 2"]] by fastforce
    show ?thesis using v by (auto simp add: ParseLayout_def c split: sum.splits)
  qed
  then obtain v where v: "ParseLayout s = Some v" by blast
  have "(\<exists>err. v = Inl err) = (\<not> (\<exists>t. v = Inr t))" by (cases v) auto
  then show "(\<exists>err. ParseLayout s = Some (Inl err)) = (\<not> (\<exists>t. lenientLayout s t))"
    unfolding ParseLayout_lenientLayout[symmetric] v by simp
next
  fix n t r
  assume "parseNode n s = Some (Inr (t, r))"
  then show "\<exists>ws hs xs ys tail. s = ws @ ''x'' @ hs @ '','' @ xs @ '','' @ ys @ tail
           \<and> Atoi ws = Some (Width t) \<and> Atoi hs = Some (Height t)
           \<and> Atoi xs = Some (X t) \<and> Atoi ys = Some (Y t)
           \<and> (tail = [] \<or> isYStop (hd tail))
           \<and> (\<forall>rest. tail = CHR '','' # rest \<longrightarrow>
                 (\<exists>ps. rest = ps @ r \<and> Atoi ps = Some (PaneID t)))"
    by (rule parseNode_fields)
next
  fix n e acc err
  assume "s \<noteq> [] \<and> hd s \<noteq> e \<and> parseNode n s = Some (Inl err)"
  then show "parseChildren (Suc n) s e acc = Some (Inl err)"
    by (simp add: parseChildren_step)
next
  fix n w h x y s5 err
  assume "parseGeometry s = Inr (w, h, x, y, CHR ''{'' # s5)
          \<and> parseChildren n s5 (CHR ''}'') [] = Some (Inl err)"
  then show "parseNode (Suc n) s = Some (Inl err)"
    by (simp add: parseNode_brace)
next
  fix n w h x y s5 err
  assume "parseGeometry s = Inr (w, h, x, y, CHR ''['' # s5)
          \<and> parseChildren n s5 (CHR '']'') [] = Some (Inl err)"
  then show "parseNode (Suc n) s = Some (Inl err)"
    by (simp add: parseNode_bracket)
next
  fix ck rest err
  assume "cut (CHR '','') s = Some (ck, rest)
          \<and> parseNode (2 * length rest + 2) rest = Some (Inl err)"
  then show "ParseLayout s = Some (Inl err)"
    by (auto simp add: ParseLayout_def)
next
  fix c
  show "ParseLayout s \<noteq> Some (Inl (UnexpectedCharacter c))"
    using conjunct1[OF never_UnexpectedCharacter]
    by (auto simp: ParseLayout_def split: option.splits sum.splits prod.splits)
qed

text \<open>
  C6 as stated fails: a split-open bracket that is never closed is accepted when the input
  ends inside the children list, and so is a closing bracket right after the root's y.
\<close>

theorem ParseLayout_unmatched_bracket_counterexample:
  "ParseLayout ''c,10x10,0,0{5x10,0,0,1''
     = Some (Inr (LayoutNode 10 10 0 0 (- 1) SplitHorizontal [LayoutNode 5 10 0 0 1 SplitNone []]))
   \<and> ParseLayout ''c,10x10,0,0]'' = Some (Inr (LayoutNode 10 10 0 0 (- 1) SplitNone []))"
  by code_simp

theorem ParseLayout_rejects_witness:
  "CHR '','' \<notin> set ''255x61'' \<and> ParseLayout ''255x61'' = Some (Inl NoChecksumSeparator)
   \<and> ParseLayout ''c,9x9,0,0{1x1,0,0,1,5x10,0,0,2}''
       = Some (Inr (LayoutNode 9 9 0 0 (- 1) SplitHorizontal
            [LayoutNode 1 1 0 0 1 SplitNone [], LayoutNode 5 10 0 0 2 SplitNone []]))
   \<and> lenientLayout ''c,9x9,0,0{1x1,0,0,1,5x10,0,0,2}''
        (LayoutNode 9 9 0 0 (- 1) SplitHorizontal
            [LayoutNode 1 1 0 0 1 SplitNone [], LayoutNode 5 10 0 0 2 SplitNone []])
   \<and> ParseLayout ''c,9x9,0,0{1x1,0,0,1,5x10,0,z,1}'' = Some (Inl InvalidY)
   \<and> layoutError ''c,9x9,0,0{1x1,0,0,1,5x10,0,z,1}'' InvalidY
   \<and> \<not> (\<exists>t. lenientLayout ''c,9x9,0,0{1x1,0,0,1,5x10,0,z,1}'' t)
   \<and> ParseLayout ''c,9x9,0,0[1x1,0,0,1,2x2,0,0{3x3,0,0,4,5x5,0,0,6x}]'' = Some (Inl InvalidPaneID)
   \<and> \<not> (\<exists>t. lenientLayout ''c,9x9,0,0[1x1,0,0,1,2x2,0,0{3x3,0,0,4,5x5,0,0,6x}]'' t)
   \<and> parseNode 1 ''5x10,0,0,1}'' = Some (Inr (LayoutNode 5 10 0 0 1 SplitNone [], ''}''))
   \<and> (\<exists>ws hs xs ys tail. ''5x10,0,0,1}'' = ws @ ''x'' @ hs @ '','' @ xs @ '','' @ ys @ tail
         \<and> Atoi ws = Some 5 \<and> Atoi hs = Some 10 \<and> Atoi xs = Some 0 \<and> Atoi ys = Some 0)
   \<and> ''5x10,0,z,1'' \<noteq> [] \<and> hd ''5x10,0,z,1'' \<noteq> CHR ''}''
   \<and> parseNode 1 ''5x10,0,z,1'' = Some (Inl InvalidY)
   \<and> parseChildren (Suc 1) ''5x10,0,z,1'' (CHR ''}'') [] = Some (Inl InvalidY)
   \<and> parseGeometry ''9x9,0,0{5x10,0,z,1}'' = Inr (9, 9, 0, 0, CHR ''{'' # ''5x10,0,z,1}'')
   \<and> parseChildren 2 ''5x10,0,z,1}'' (CHR ''}'') [] = Some (Inl InvalidY)
   \<and> parseNode (Suc 2) ''9x9,0,0{5x10,0,z,1}'' = Some (Inl InvalidY)
   \<and> parseGeometry ''9x9,0,0[5x10,0,z,1]'' = Inr (9, 9, 0, 0, CHR ''['' # ''5x10,0,z,1]'')
   \<and> parseChildren 2 ''5x10,0,z,1]'' (CHR '']'') [] = Some (Inl InvalidY)
   \<and> parseNode (Suc 2) ''9x9,0,0[5x10,0,z,1]'' = Some (Inl InvalidY)
   \<and> cut (CHR '','') ''c,9x9,0,0{5x10,0,z,1}'' = Some (''c'', ''9x9,0,0{5x10,0,z,1}'')
   \<and> parseNode (2 * length ''9x9,0,0{5x10,0,z,1}'' + 2) ''9x9,0,0{5x10,0,z,1}'' = Some (Inl InvalidY)
   \<and> ParseLayout ''c,9x9,0,0{5x10,0,z,1}'' = Some (Inl InvalidY)"
proof -
  have a: "CHR '','' \<notin> set ''255x61''" by simp
  have b: "parseNode 1 ''5x10,0,0,1}'' = Some (Inr (LayoutNode 5 10 0 0 1 SplitNone [], ''}''))"
    by code_simp
  have c: "''5x10,0,z,1'' \<noteq> [] \<and> hd ''5x10,0,z,1'' \<noteq> CHR ''}''
      \<and> parseNode 1 ''5x10,0,z,1'' = Some (Inl InvalidY)"
    by code_simp
  have d: "parseGeometry ''9x9,0,0{5x10,0,z,1}'' = Inr (9, 9, 0, 0, CHR ''{'' # ''5x10,0,z,1}'')
      \<and> parseChildren 2 ''5x10,0,z,1}'' (CHR ''}'') [] = Some (Inl InvalidY)"
    by code_simp
  have e: "parseGeometry ''9x9,0,0[5x10,0,z,1]'' = Inr (9, 9, 0, 0, CHR ''['' # ''5x10,0,z,1]'')
      \<and> parseChildren 2 ''5x10,0,z,1]'' (CHR '']'') [] = Some (Inl InvalidY)"
    by code_simp
  have f: "cut (CHR '','') ''c,9x9,0,0{5x10,0,z,1}'' = Some (''c'', ''9x9,0,0{5x10,0,z,1}'')
      \<and> parseNode (2 * length ''9x9,0,0{5x10,0,z,1}'' + 2) ''9x9,0,0{5x10,0,z,1}'' = Some (Inl InvalidY)"
    by code_simp
  have g: "ParseLayout ''c,9x9,0,0{1x1,0,0,1,5x10,0,0,2}''
       = Some (Inr (LayoutNode 9 9 0 0 (- 1) SplitHorizontal
            [LayoutNode 1 1 0 0 1 SplitNone [], LayoutNode 5 10 0 0 2 SplitNone []]))"
    by code_simp
  have h: "ParseLayout ''c,9x9,0,0{1x1,0,0,1,5x10,0,z,1}'' = Some (Inl InvalidY)"
    by code_simp
  have i: "ParseLayout ''c,9x9,0,0[1x1,0,0,1,2x2,0,0{3x3,0,0,4,5x5,0,0,6x}]'' = Some (Inl InvalidPaneID)"
    by code_simp
  have a': "ParseLayout ''255x61'' = Some (Inl NoChecksumSeparator)"
    using ParseLayout_rejects[of "''255x61''", THEN conjunct1, rule_format, OF a] .
  have g': "lenientLayout ''c,9x9,0,0{1x1,0,0,1,5x10,0,0,2}''
        (LayoutNode 9 9 0 0 (- 1) SplitHorizontal
            [LayoutNode 1 1 0 0 1 SplitNone [], LayoutNode 5 10 0 0 2 SplitNone []])"
    using ParseLayout_rejects[of "''c,9x9,0,0{1x1,0,0,1,5x10,0,0,2}''", THEN conjunct2,
        THEN conjunct1, rule_format, THEN iffD1, OF g] .
  have h': "layoutError ''c,9x9,0,0{1x1,0,0,1,5x10,0,z,1}'' InvalidY"
    using ParseLayout_rejects[of "''c,9x9,0,0{1x1,0,0,1,5x10,0,z,1}''", THEN conjunct2,
        THEN conjunct2, THEN conjunct1, rule_format, THEN iffD1, OF h] .
  have h'': "\<not> (\<exists>t. lenientLayout ''c,9x9,0,0{1x1,0,0,1,5x10,0,z,1}'' t)"
    using ParseLayout_rejects[of "''c,9x9,0,0{1x1,0,0,1,5x10,0,z,1}''", THEN conjunct2,
        THEN conjunct2, THEN conjunct2, THEN conjunct1, THEN iffD1, OF exI, OF h] .
  have i': "\<not> (\<exists>t. lenientLayout ''c,9x9,0,0[1x1,0,0,1,2x2,0,0{3x3,0,0,4,5x5,0,0,6x}]'' t)"
    using ParseLayout_rejects[of "''c,9x9,0,0[1x1,0,0,1,2x2,0,0{3x3,0,0,4,5x5,0,0,6x}]''",
        THEN conjunct2, THEN conjunct2, THEN conjunct2, THEN conjunct1, THEN iffD1, OF exI, OF i] .
  have b': "\<exists>ws hs xs ys tail. ''5x10,0,0,1}'' = ws @ ''x'' @ hs @ '','' @ xs @ '','' @ ys @ tail
         \<and> Atoi ws = Some 5 \<and> Atoi hs = Some 10 \<and> Atoi xs = Some 0 \<and> Atoi ys = Some 0"
    using ParseLayout_rejects[of "''5x10,0,0,1}''", THEN conjunct2, THEN conjunct2,
        THEN conjunct2, THEN conjunct2, THEN conjunct1, rule_format, OF b]
    unfolding LayoutNode.sel by blast
  have c': "parseChildren (Suc 1) ''5x10,0,z,1'' (CHR ''}'') [] = Some (Inl InvalidY)"
    using ParseLayout_rejects[of "''5x10,0,z,1''", THEN conjunct2, THEN conjunct2,
        THEN conjunct2, THEN conjunct2, THEN conjunct2, THEN conjunct1, rule_format, OF c] .
  have d': "parseNode (Suc 2) ''9x9,0,0{5x10,0,z,1}'' = Some (Inl InvalidY)"
    using ParseLayout_rejects[of "''9x9,0,0{5x10,0,z,1}''", THEN conjunct2, THEN conjunct2,
        THEN conjunct2, THEN conjunct2, THEN conjunct2, THEN conjunct2, THEN conjunct1,
        rule_format, OF d] .
  have e': "parseNode (Suc 2) ''9x9,0,0[5x10,0,z,1]'' = Some (Inl InvalidY)"
    using ParseLayout_rejects[of "''9x9,0,0[5x10,0,z,1]''", THEN conjunct2, THEN conjunct2,
        THEN conjunct2, THEN conjunct2, THEN conjunct2, THEN conjunct2, THEN conjunct2,
        THEN conjunct1, rule_format, OF e] .
  have f': "ParseLayout ''c,9x9,0,0{5x10,0,z,1}'' = Some (Inl InvalidY)"
    using ParseLayout_rejects[of "''c,9x9,0,0{5x10,0,z,1}''", THEN conjunct2, THEN conjunct2,
        THEN conjunct2, THEN conjunct2, THEN conjunct2, THEN conjunct2, THEN conjunct2,
        THEN conjunct2, THEN conjunct1, rule_format, OF f] .
  show ?thesis
    using a a' g g' h h' h'' i i' b b' c c' d d' e e' f f'
    by (intro conjI) (simp_all only: simp_thms)
qed

section \<open>When the apply operation does nothing\<close>

lemma ApplyZoom_single_pane:
  "GetPaneCount env = Inr n \<Longrightarrow> n \<le> 1 \<Longrightarrow> ApplyZoom env state = (None, [])"
  by (simp add: ApplyZoom_def)

lemma ApplyZoom_early:
  "GetPaneCount env = Inl e \<Longrightarrow> ApplyZoom env state = (Some e, [])"
  "GetPaneCount env = Inr n \<Longrightarrow> 1 < n \<Longrightarrow> GetCurrentSession env = Inl e \<Longrightarrow>
     ApplyZoom env state = (Some e, [])"
  "GetPaneCount env = Inr n \<Longrightarrow> 1 < n \<Longrightarrow> GetCurrentSession env = Inr s \<Longrightarrow>
     GetCurrentWindow env = Inl e \<Longrightarrow> ApplyZoom env state = (Some e, [])"
  "GetPaneCount env = Inr n \<Longrightarrow> 1 < n \<Longrightarrow> GetCurrentSession env = Inr s \<Longrightarrow>
     GetCurrentWindow env = Inr w \<Longrightarrow> s \<noteq> Session state \<or> w \<noteq> Window state \<Longrightarrow>
     ApplyZoom env state = (None, [])"
  by (simp_all add: ApplyZoom_def)

lemma ApplyZoom_other_window:
  assumes "(GetCurrentSession env = Inr s \<and> s \<noteq> Session state)
         \<or> (GetCurrentWindow env = Inr w \<and> w \<noteq> Window state)"
  shows "snd (ApplyZoom env state) = []"
proof (cases "GetPaneCount env")
  case (Inl e)
  then show ?thesis by (simp add: ApplyZoom_early(1))
next
  case (Inr n)
  show ?thesis
  proof (cases "n \<le> 1")
    case True
    then show ?thesis using Inr by (simp add: ApplyZoom_single_pane)
  next
    case False
    then have n: "1 < n" by simp
    show ?thesis
    proof (cases "GetCurrentSession env")
      case (Inl e)
      then show ?thesis by (simp add: ApplyZoom_early(2)[OF Inr n])
    next
      case s': (Inr s')
      show ?thesis
      proof (cases "GetCurrentWindow env")
        case (Inl e)
        then show ?thesis by (simp add: ApplyZoom_early(3)[OF Inr n s'])
      next
        case w': (Inr w')
        have "s' \<noteq> Session state \<or> w' \<noteq> Window state" using assms s' w' by auto
        then show ?thesis by (simp add: ApplyZoom_early(4)[OF Inr n s' w'])
      qed
    qed
  qed
qed

text \<open>
  C9. The apply operation (\<open>cmdApply\<close> with zoom enabled, that is \<open>ApplyZoom\<close>) returns
  without error and without any effect when the live pane count is at most 1. When the
  live session or the live window differs from the one recorded in the state, it causes no
  effect at all, so no layout change; and when the pane count, session and window queries
  all succeed, it returns without error.
\<close>

theorem ApplyZoom_no_op:
  "(GetPaneCount env = Inr n \<and> n \<le> 1 \<longrightarrow>
      ApplyZoom env state = (None, []) \<and> cmdApply env state = (None, []))
   \<and> ((GetCurrentSession env = Inr s \<and> s \<noteq> Session state)
        \<or> (GetCurrentWindow env = Inr w \<and> w \<noteq> Window state) \<longrightarrow>
      snd (ApplyZoom env state) = [] \<and> snd (cmdApply env state) = [])
   \<and> (GetPaneCount env = Inr n \<and> 1 < n \<and> GetCurrentSession env = Inr s
        \<and> GetCurrentWindow env = Inr w \<and> (s \<noteq> Session state \<or> w \<noteq> Window state) \<longrightarrow>
      ApplyZoom env state = (None, []) \<and> cmdApply env state = (None, []))"
proof (intro conjI impI)
  assume a: "GetPaneCount env = Inr n \<and> n \<le> 1"
  then show "ApplyZoom env state = (None, [])" by (simp add: ApplyZoom_single_pane)
  then show "cmdApply env state = (None, [])" by (simp add: cmdApply_def)
next
  assume a: "(GetCurrentSession env = Inr s \<and> s \<noteq> Session state)
        \<or> (GetCurrentWindow env = Inr w \<and> w \<noteq> Window state)"
  then show "snd (ApplyZoom env state) = []" by (rule ApplyZoom_other_window)
  then show "snd (cmdApply env state) = []" by (simp add: cmdApply_def)
next
  assume a: "GetPaneCount env = Inr n \<and> 1 < n \<and> GetCurrentSession env = Inr s
        \<and> GetCurrentWindow env = Inr w \<and> (s \<noteq> Session state \<or> w \<noteq> Window state)"
  then show "ApplyZoom env state = (None, [])" using ApplyZoom_early(4) by blast
  then show "cmdApply env state = (None, [])" by (simp add: cmdApply_def)
qed

lemma Atoi_small: "Atoi ''1'' = Some 1" "Atoi ''2'' = Some 2"
  by (simp_all add: Atoi_def isDigit_def digitVal_def inInt64_def)

theorem ApplyZoom_no_op_witness:
  "GetPaneCount (demoEnv ''1'' ''main'' ''1'') = Inr 1 \<and> (1::int) \<le> 1
   \<and> ApplyZoom (demoEnv ''1'' ''main'' ''1'') demoState = (None, [])
   \<and> GetCurrentSession (demoEnv ''2'' ''work'' ''1'') = Inr ''work'' \<and> ''work'' \<noteq> Session demoState
   \<and> snd (ApplyZoom (demoEnv ''2'' ''work'' ''1'') demoState) = []
   \<and> GetPaneCount (demoEnv ''2'' ''main'' ''3'') = Inr 2 \<and> (1::int) < 2
   \<and> GetCurrentSession (demoEnv ''2'' ''main'' ''3'') = Inr ''main''
   \<and> GetCurrentWindow (demoEnv ''2'' ''main'' ''3'') = Inr ''3''
   \<and> ''3'' \<noteq> Window demoState
   \<and> ApplyZoom (demoEnv ''2'' ''main'' ''3'') demoState = (None, [])"
proof -
  have a: "GetPaneCount (demoEnv ''1'' ''main'' ''1'') = Inr 1 \<and> (1::int) \<le> 1"
    by (simp add: GetPaneCount_def demoEnv_def Atoi_small)
  have b: "GetCurrentSession (demoEnv ''2'' ''work'' ''1'') = Inr ''work'' \<and> ''work'' \<noteq> Session demoState"
    by (simp add: GetCurrentSession_def demoEnv_def demoState_def)
  have c: "GetPaneCount (demoEnv ''2'' ''main'' ''3'') = Inr 2 \<and> (1::int) < 2
   \<and> GetCurrentSession (demoEnv ''2'' ''main'' ''3'') = Inr ''main''
   \<and> GetCurrentWindow (demoEnv ''2'' ''main'' ''3'') = Inr ''3''
   \<and> (''main'' \<noteq> Session demoState \<or> ''3'' \<noteq> Window demoState)"
    by (simp add: GetPaneCount_def GetCurrentSession_def GetCurrentWindow_def demoEnv_def
        demoState_def Atoi_small)
  have c2: "''3'' \<noteq> Window demoState" by (simp add: demoState_def)
  have a': "ApplyZoom (demoEnv ''1'' ''main'' ''1'') demoState = (None, [])"
    using ApplyZoom_no_op[of "demoEnv ''1'' ''main'' ''1''" 1 demoState,
        THEN conjunct1, rule_format, OF a] by (rule conjunct1)
  have b': "snd (ApplyZoom (demoEnv ''2'' ''work'' ''1'') demoState) = []"
    using ApplyZoom_no_op[of "demoEnv ''2'' ''work'' ''1''" _ demoState "''work''",
        THEN conjunct2, THEN conjunct1, rule_format, OF disjI1, OF b] by (rule conjunct1)
  have c': "ApplyZoom (demoEnv ''2'' ''main'' ''3'') demoState = (None, [])"
    using ApplyZoom_no_op[of "demoEnv ''2'' ''main'' ''3''" 2 demoState "''main''" "''3''",
        THEN conjunct2, THEN conjunct2, rule_format, OF c] by (rule conjunct1)
  show ?thesis using a a' b b' c c2 c' by (intro conjI) (simp_all only: simp_thms)
qed

section \<open>The share of the target child\<close>

lemma wrap64_id: "inInt64 i \<Longrightarrow> wrap64 i = i"
  unfolding inInt64_def wrap64_def by simp

lemma add64_id: "inInt64 (a + b) \<Longrightarrow> add64 a b = a + b"
  by (simp add: add64_def wrap64_id)

lemma sub64_id: "inInt64 (a - b) \<Longrightarrow> sub64 a b = a - b"
  by (simp add: sub64_def wrap64_id)

lemma mul64_id: "inInt64 (a * b) \<Longrightarrow> mul64 a b = a * b"
  by (simp add: mul64_def wrap64_id)

lemma quot64_id: "0 \<le> a \<Longrightarrow> 0 < b \<Longrightarrow> inInt64 a \<Longrightarrow> quot64 a b = a div b"
proof -
  assume a: "0 \<le> a" and b: "0 < b" and r: "inInt64 a"
  have "sgn a * sgn b * (\<bar>a\<bar> div \<bar>b\<bar>) = a div b"
    using a b by (cases "a = 0") (simp_all add: sgn_if)
  moreover have "0 \<le> a div b" "a div b \<le> a"
    using a b zdiv_mono2[of a 1 b] by (simp_all add: pos_imp_zdiv_nonneg_iff)
  then have "inInt64 (a div b)" using r by (simp add: inInt64_def)
  ultimately show ?thesis by (simp add: quot64_def wrap64_id)
qed

lemma otherSize_append:
  "otherSize (xs @ ys) a i acc = otherSize ys a (i + length xs) (otherSize xs a i acc)"
  by (induction xs arbitrary: i acc) simp_all

lemma otherSize_off:
  "a < i \<or> i + length ws \<le> a \<Longrightarrow> 0 \<le> acc \<Longrightarrow> list_all (\<lambda>w. 0 \<le> w) ws \<Longrightarrow>
   acc + sum_list ws < 2 ^ 63 \<Longrightarrow> otherSize ws a i acc = acc + sum_list ws"
proof (induction ws arbitrary: i acc)
  case Nil
  show ?case by simp
next
  case (Cons w ws)
  have ne: "i \<noteq> a" using Cons.prems(1) by auto
  have w: "0 \<le> w" and ws: "list_all (\<lambda>w. 0 \<le> w) ws" using Cons.prems(3) by simp_all
  have s: "0 \<le> sum_list ws" using ws by (simp add: list_all_iff sum_list_nonneg)
  have "inInt64 (acc + w)" using Cons.prems(2,4) w s by (simp add: inInt64_def)
  then have step: "add64 acc w = acc + w" by (rule add64_id)
  have "otherSize ws a (Suc i) (acc + w) = (acc + w) + sum_list ws"
    using Cons.prems w ws by (intro Cons.IH) auto
  then show ?case using ne step by simp
qed

lemma otherSize_split:
  assumes "length pre = a" and "list_all (\<lambda>w. 0 \<le> w) (pre @ wa # post)"
    and "sum_list pre + sum_list post < 2 ^ 63"
  shows "otherSize (pre @ wa # post) a 0 0 = sum_list pre + sum_list post"
proof -
  have pre: "list_all (\<lambda>w. 0 \<le> w) pre" and post: "list_all (\<lambda>w. 0 \<le> w) post"
    using assms(2) by simp_all
  have p0: "0 \<le> sum_list pre" "0 \<le> sum_list post"
    using pre post by (simp_all add: list_all_iff sum_list_nonneg)
  have a: "otherSize pre a 0 0 = sum_list pre"
    using otherSize_off[of a 0 pre 0] assms(1,3) pre p0 by simp
  have b: "otherSize post a (Suc a) (sum_list pre) = sum_list pre + sum_list post"
    using otherSize_off[of a "Suc a" post "sum_list pre"] assms(3) post p0 by simp
  show ?thesis using a b assms(1) by (simp add: otherSize_append)
qed

lemma share_sibling:
  assumes "0 \<le> w" "w < 2 ^ 31" "0 \<le> R" "R < 2 ^ 31" "2 \<le> n" "n < 2 ^ 32"
  shows "share w T other R n False = siblingShare other R n w"
proof (cases "other > 0")
  case True
  have "0 \<le> w * R" using assms by simp
  moreover have "w * R < 2 ^ 31 * 2 ^ 31"
    using assms by (intro mult_strict_mono') auto
  ultimately have r: "inInt64 (w * R)" by (simp add: inInt64_def)
  then have "mul64 w R = w * R" by (rule mul64_id)
  moreover have "quot64 (w * R) other = (w * R) div other"
    using True r assms by (intro quot64_id) auto
  ultimately show ?thesis using True by (simp add: share_def siblingShare_def)
next
  case False
  have "inInt64 (n - 1)" using assms by (simp add: inInt64_def)
  then have "sub64 n 1 = n - 1" by (rule sub64_id)
  moreover have "quot64 R (n - 1) = R div (n - 1)"
    using assms by (intro quot64_id) (auto simp: inInt64_def)
  ultimately show ?thesis using False by (simp add: share_def siblingShare_def)
qed

lemma siblingShare_nonneg: "0 \<le> w \<Longrightarrow> 0 \<le> R \<Longrightarrow> 2 \<le> n \<Longrightarrow> 0 \<le> siblingShare other R n w"
  by (simp add: siblingShare_def pos_imp_zdiv_nonneg_iff)

lemma distribute_append:
  "distribute (xs @ ys) a T other R n i new used =
     (case distribute xs a T other R n i new used of
        (new', used') \<Rightarrow> distribute ys a T other R n (i + length xs) new' used')"
  by (induction xs arbitrary: i new used) (simp_all add: Let_def)

lemma distribute_off:
  assumes "a < i \<or> i + length ws \<le> a"
    and "list_all (\<lambda>w. 0 \<le> w \<and> w < 2 ^ 31) ws"
    and "0 \<le> R" "R < 2 ^ 31" "2 \<le> n" "n < 2 ^ 32"
    and "0 \<le> used" "used + sum_list (map (siblingShare other R n) ws) < 2 ^ 63"
  shows "distribute ws a T other R n i new used =
           (new @ map (siblingShare other R n) ws,
            used + sum_list (map (siblingShare other R n) ws))"
  using assms(1,2,7,8)
proof (induction ws arbitrary: i new used)
  case Nil
  show ?case by simp
next
  case (Cons w ws)
  have ne: "i \<noteq> a" using Cons.prems(1) by auto
  have w: "0 \<le> w" "w < 2 ^ 31" and ws: "list_all (\<lambda>w. 0 \<le> w \<and> w < 2 ^ 31) ws"
    using Cons.prems(2) by simp_all
  define v where "v = siblingShare other R n w"
  have sh: "share w T other R n (i = a) = v"
    using ne share_sibling[OF w assms(3-6)] by (simp add: v_def)
  have v0: "0 \<le> v" using siblingShare_nonneg[OF w(1) assms(3,5)] by (simp add: v_def)
  have rest0: "0 \<le> sum_list (map (siblingShare other R n) ws)"
    using ws siblingShare_nonneg[OF _ assms(3,5)]
    by (intro sum_list_nonneg) (auto simp: list_all_iff)
  have "inInt64 (used + v)"
    using Cons.prems(3,4) v0 rest0 by (simp add: inInt64_def v_def)
  then have ad: "add64 used v = used + v" by (rule add64_id)
  have "distribute ws a T other R n (Suc i) (new @ [v]) (used + v) =
          ((new @ [v]) @ map (siblingShare other R n) ws,
           (used + v) + sum_list (map (siblingShare other R n) ws))"
    using Cons.prems ws v0 by (intro Cons.IH) (auto simp: v_def)
  then show ?case using sh ad by (simp add: Let_def v_def)
qed

lemma sum_div_le:
  "0 < d \<Longrightarrow> sum_list (map (\<lambda>x. x div d) xs) \<le> sum_list xs div (d::int)"
proof (induction xs)
  case Nil
  show ?case by simp
next
  case (Cons x xs)
  have "0 \<le> (x mod d + sum_list xs mod d) div d"
    using Cons.prems by (simp add: pos_imp_zdiv_nonneg_iff)
  then have "x div d + sum_list xs div d \<le> (x + sum_list xs) div d"
    by (simp add: div_add1_eq[of x "sum_list xs" d])
  then show ?case using Cons by simp
qed

lemma sum_div_ge:
  "0 < d \<Longrightarrow> sum_list xs - int (length xs) * (d - 1) \<le> sum_list (map (\<lambda>x. x div d) xs) * (d::int)"
proof (induction xs)
  case Nil
  show ?case by simp
next
  case (Cons x xs)
  have "x div d * d + x mod d = x" by simp
  moreover have "x mod d < d" using Cons.prems by simp
  ultimately have "x - (d - 1) \<le> x div d * d" by linarith
  then show ?case using Cons by (simp add: algebra_simps)
qed

lemma sum_list_times: "sum_list (map (\<lambda>w. w * R) ws) = sum_list ws * (R::int)"
  by (induction ws) (simp_all add: algebra_simps)

lemma siblingShare_pos: "0 < other \<Longrightarrow> siblingShare other R n = (\<lambda>w. w * R div other)"
  by (rule ext) (simp add: siblingShare_def)

lemma siblingShare_zero: "\<not> 0 < other \<Longrightarrow> siblingShare other R n = (\<lambda>w. R div (n - 1))"
  by (rule ext) (simp add: siblingShare_def)

lemma share_sum_le:
  assumes nn: "list_all (\<lambda>w. 0 \<le> w) ws" and R: "0 \<le> R" and O: "0 \<le> other"
    and le: "sum_list ws \<le> other" and n: "2 \<le> n" and len: "int (length ws) \<le> n - 1"
  shows "sum_list (map (siblingShare other R n) ws) \<le> R"
proof (cases "other > 0")
  case True
  have "sum_list (map (siblingShare other R n) ws)
          = sum_list (map (\<lambda>x. x div other) (map (\<lambda>w. w * R) ws))"
    using True by (simp add: siblingShare_pos comp_def)
  also have "\<dots> \<le> sum_list (map (\<lambda>w. w * R) ws) div other"
    using True by (rule sum_div_le)
  also have "\<dots> = (sum_list ws * R) div other" by (simp only: sum_list_times)
  also have "\<dots> \<le> (other * R) div other"
    using True le R by (intro zdiv_mono1 mult_right_mono) auto
  also have "\<dots> = R" using True by simp
  finally show ?thesis .
next
  case False
  define q where "q = R div (n - 1)"
  have q0: "0 \<le> q" using R n by (simp add: q_def pos_imp_zdiv_nonneg_iff)
  have "sum_list (map (siblingShare other R n) ws) = int (length ws) * q"
    using False by (simp add: siblingShare_zero q_def sum_list_triv)
  also have "\<dots> \<le> (n - 1) * q" using len q0 by (intro mult_right_mono) auto
  also have "\<dots> \<le> R"
  proof -
    have "(n - 1) * q + R mod (n - 1) = R" by (simp add: q_def)
    moreover have "0 \<le> R mod (n - 1)" using n by simp
    ultimately show ?thesis by linarith
  qed
  finally show ?thesis .
qed

lemma share_sum_ge:
  assumes nn: "list_all (\<lambda>w. 0 \<le> w) ws" and R: "0 \<le> R"
    and eq: "sum_list ws = other" and n: "2 \<le> n" and len: "int (length ws) = n - 1"
  shows "R - (n - 2) \<le> sum_list (map (siblingShare other R n) ws)"
proof (cases "other > 0")
  case True
  define S where "S = sum_list (map (siblingShare other R n) ws)"
  have S: "S = sum_list (map (\<lambda>x. x div other) (map (\<lambda>w. w * R) ws))"
    using True by (simp add: S_def siblingShare_pos comp_def)
  have "sum_list (map (\<lambda>w. w * R) ws) - int (length (map (\<lambda>w. w * R) ws)) * (other - 1)
          \<le> S * other"
    unfolding S using True by (rule sum_div_ge)
  then have low: "other * R - (n - 1) * (other - 1) \<le> S * other"
    using eq len by (simp add: sum_list_times mult.commute)
  have "R - (n - 1) < S"
  proof (rule ccontr)
    assume "\<not> R - (n - 1) < S"
    then have "S \<le> R - (n - 1)" by simp
    then have "S * other \<le> (R - (n - 1)) * other"
      using True by (intro mult_right_mono) auto
    then have "other * R - (n - 1) * (other - 1) \<le> (R - (n - 1)) * other"
      using low by linarith
    then have "(n - 1) * other \<le> (n - 1) * (other - 1)"
      by (simp add: algebra_simps)
    then have "other \<le> other - 1" using n by simp
    then show False by simp
  qed
  then show ?thesis by (simp add: S_def)
next
  case False
  define q where "q = R div (n - 1)"
  have "sum_list (map (siblingShare other R n) ws) = int (length ws) * q"
    using False by (simp add: siblingShare_zero q_def sum_list_triv)
  then have s: "sum_list (map (siblingShare other R n) ws) = (n - 1) * q"
    using len by simp
  have "(n - 1) * q + R mod (n - 1) = R" by (simp add: q_def)
  moreover have "R mod (n - 1) < n - 1" using n by simp
  ultimately show ?thesis using s by linarith
qed

lemma sum_list_small:
  "list_all (\<lambda>w. 0 \<le> w \<and> w < 2 ^ 31) ws \<Longrightarrow>
   0 \<le> sum_list ws \<and> sum_list ws \<le> int (length ws) * 2 ^ 31"
  by (induction ws) (auto simp: algebra_simps)

lemma zoomSizes_closed:
  assumes a: "a < length ws"
    and small: "list_all (\<lambda>w. 0 \<le> w \<and> w < 2 ^ 31) ws"
    and n2: "2 \<le> n" and W: "n - 1 \<le> W" "W < 2 ^ 31" and p: "0 \<le> p" "p \<le> 100"
    and defs: "n = int (length ws)" "A = W - (n - 1)" "T = A * p div 100" "R = A - T"
      "other = sum_list (take a ws) + sum_list (drop (Suc a) ws)"
      "S = sum_list (map (siblingShare other R n) (take a ws @ drop (Suc a) ws))"
  shows "zoomSizes W ws a p =
           map (siblingShare other R n) (take a ws) @ [T + (R - S)]
             @ map (siblingShare other R n) (drop (Suc a) ws)"
    and "0 \<le> A" and "0 \<le> T" and "T \<le> A" and "0 \<le> R - S" and "R - S \<le> n - 2"
proof -
  define pre where "pre = take a ws"
  define post where "post = drop (Suc a) ws"
  define g where "g = siblingShare other R n"
  have ws: "ws = pre @ ws ! a # post"
    using a by (simp add: pre_def post_def id_take_nth_drop[symmetric])
  have lpre: "length pre = a" using a by (simp add: pre_def)
  have lens: "int (length pre) + int (length post) = n - 1"
    using a by (simp add: pre_def post_def defs(1))
  have spre: "list_all (\<lambda>w. 0 \<le> w \<and> w < 2 ^ 31) pre"
    and spost: "list_all (\<lambda>w. 0 \<le> w \<and> w < 2 ^ 31) post"
    using small by (auto simp: pre_def post_def list_all_iff dest: in_set_takeD in_set_dropD)
  have npre: "list_all (\<lambda>w. 0 \<le> w) pre" and npost: "list_all (\<lambda>w. 0 \<le> w) post"
    using spre spost by (auto simp: list_all_iff)
  have nws: "list_all (\<lambda>w. 0 \<le> w) (pre @ ws ! a # post)"
    using small ws by (auto simp: list_all_iff)
  have n32: "n < 2 ^ 32" using W by simp
  have A0: "0 \<le> A" and AW: "A \<le> W" using W n2 by (simp_all add: defs(2))
  have A31: "A < 2 ^ 31" using AW W by simp
  have T0: "0 \<le> T" using A0 p by (simp add: defs(3) pos_imp_zdiv_nonneg_iff)
  have TA: "T \<le> A"
  proof -
    have "A * p \<le> A * 100" using A0 p by (intro mult_left_mono) auto
    then have "A * p div 100 \<le> A * 100 div 100" by (intro zdiv_mono1) auto
    then show ?thesis by (simp add: defs(3))
  qed
  have R0: "0 \<le> R" and RA: "R \<le> A" using T0 TA by (simp_all add: defs(4))
  have R31: "R < 2 ^ 31" using RA A31 by simp
  have sums: "0 \<le> sum_list pre" "sum_list pre \<le> int (length pre) * 2 ^ 31"
    "0 \<le> sum_list post" "sum_list post \<le> int (length post) * 2 ^ 31"
    using sum_list_small[OF spre] sum_list_small[OF spost] by simp_all
  have other: "other = sum_list pre + sum_list post" by (simp add: defs(5) pre_def post_def)
  have O0: "0 \<le> other" using sums other by simp
  have "other \<le> (int (length pre) + int (length post)) * 2 ^ 31"
    using sums other by (simp add: algebra_simps)
  also have "\<dots> = (n - 1) * 2 ^ 31" by (simp only: lens)
  also have "\<dots> < 2 ^ 31 * 2 ^ 31" using W by simp
  finally have O63: "other < 2 ^ 63" by simp
  have S: "S = sum_list (map g pre) + sum_list (map g post)"
    by (simp add: defs(6) g_def pre_def post_def)
  have gpre: "sum_list (map g pre) \<le> R" unfolding g_def
    using npre R0 O0 _ n2 by (rule share_sum_le) (use sums other lens in auto)
  have gall: "sum_list (map g (pre @ post)) \<le> R" unfolding g_def
    using _ R0 O0 _ n2 by (rule share_sum_le) (use npre npost sums other lens in auto)
  have glow: "R - (n - 2) \<le> sum_list (map g (pre @ post))" unfolding g_def
    using _ R0 _ n2 by (rule share_sum_ge) (use npre npost other lens in auto)
  have g0: "0 \<le> sum_list (map g pre)" "0 \<le> sum_list (map g post)"
    using npre npost siblingShare_nonneg[OF _ R0 n2]
    by (auto intro!: sum_list_nonneg simp: g_def list_all_iff)
  have SR: "S \<le> R" and Slow: "R - (n - 2) \<le> S" using gall glow by (simp_all add: S)
  \<comment> \<open>the arithmetic of the source, step by step\<close>
  have e0: "int (length ws) = n" by (simp add: defs(1))
  have e1: "sub64 n 1 = n - 1"
    using n2 n32 by (simp add: sub64_id inInt64_def)
  have e2: "sub64 W (n - 1) = A"
    using A0 AW W by (simp add: defs(2) sub64_id inInt64_def)
  have "A * p \<le> 2 ^ 31 * 100" using A0 A31 p by (intro mult_mono) auto
  moreover have "0 \<le> A * p" using A0 p by simp
  ultimately have Ap: "inInt64 (A * p)" by (simp add: inInt64_def)
  have e3: "quot64 (mul64 A p) 100 = T"
    using Ap A0 p by (simp add: mul64_id quot64_id defs(3))
  have e4: "otherSize ws a 0 0 = other"
    using otherSize_split[OF lpre nws] O63 other ws by simp
  have e5: "sub64 A T = R" using R0 RA A31 by (simp add: defs(4) sub64_id inInt64_def)
  have d1: "distribute pre a T other R n 0 [] 0 = (map g pre, sum_list (map g pre))"
    using distribute_off[of a 0 pre R n 0 other T "[]"] spre R0 R31 n2 n32 gpre lpre
    by (simp add: g_def)
  have sh: "share (ws ! a) T other R n True = T" by (simp add: share_def)
  have ad: "add64 (sum_list (map g pre)) T = sum_list (map g pre) + T"
    using g0 gpre T0 TA R31 A31 by (intro add64_id) (simp add: inInt64_def)
  have d2: "distribute post a T other R n (Suc a) (map g pre @ [T]) (sum_list (map g pre) + T)
              = ((map g pre @ [T]) @ map g post, (sum_list (map g pre) + T) + sum_list (map g post))"
    using distribute_off[of a "Suc a" post R n "sum_list (map g pre) + T" other T "map g pre @ [T]"]
      spost R0 R31 n2 n32 g0 T0 TA A31 SR S
    by (simp add: g_def)
  have dist: "distribute ws a T other R n 0 [] 0 = (map g pre @ T # map g post, T + S)"
    by (subst ws) (simp add: distribute_append d1 lpre sh ad d2 S Let_def)
  have e6: "sub64 A (T + S) = R - S"
    using SR Slow R0 RA A31 n2 n32 by (simp add: defs(4) sub64_id inInt64_def)
  have e7: "add64 T (R - S) = T + (R - S)"
    using SR Slow T0 TA A31 R0 RA n2 n32 by (intro add64_id) (simp add: inInt64_def)
  have nth: "(map g pre @ T # map g post) ! a = T" using lpre by (simp add: nth_append)
  have upd: "(map g pre @ T # map g post)[a := x] = map g pre @ x # map g post" for x
    using lpre by (simp add: list_update_append)
  have z: "zoomSizes W ws a p =
      (if T + S \<noteq> A
       then (map g pre @ T # map g post)
              [a := add64 ((map g pre @ T # map g post) ! a) (sub64 A (T + S))]
       else map g pre @ T # map g post)"
    by (simp only: zoomSizes_def Let_def e0 e1 e2 e3 e4 e5 dist prod.case)
  have "zoomSizes W ws a p = map g pre @ (T + (R - S)) # map g post"
  proof (cases "T + S = A")
    case True
    then have "R - S = 0" by (simp add: defs(4))
    then show ?thesis using True by (simp only: z) simp
  next
    case False
    then show ?thesis by (simp only: z nth e6 e7 upd) simp
  qed
  then show "zoomSizes W ws a p =
           map (siblingShare other R n) (take a ws) @ [T + (R - S)]
             @ map (siblingShare other R n) (drop (Suc a) ws)"
    by (simp add: g_def pre_def post_def)
  show "0 \<le> A" by (rule A0)
  show "0 \<le> T" by (rule T0)
  show "T \<le> A" by (rule TA)
  show "0 \<le> R - S" using SR by simp
  show "R - S \<le> n - 2" using Slow by simp
qed

lemma elem_le_sum_list:
  "list_all (\<lambda>x. 0 \<le> x) xs \<Longrightarrow> x \<in> set xs \<Longrightarrow> x \<le> sum_list (xs :: int list)"
proof (induction xs)
  case Nil
  then show ?case by simp
next
  case (Cons y ys)
  have "0 \<le> sum_list ys" using Cons.prems(1) by (auto intro!: sum_list_nonneg simp: list_all_iff)
  then show ?case using Cons by auto
qed

lemma zoomSizes_props:
  assumes a: "a < length ws"
    and small: "list_all (\<lambda>w. 0 \<le> w \<and> w < 2 ^ 31) ws"
    and n2: "2 \<le> length ws" and W: "int (length ws) - 1 \<le> W" "W < 2 ^ 31"
    and p: "0 \<le> p" "p \<le> 100"
    and A: "A = W - (int (length ws) - 1)" and T: "T = A * p div 100"
  shows "length (zoomSizes W ws a p) = length ws"
    and "T \<le> zoomSizes W ws a p ! a"
    and "zoomSizes W ws a p ! a \<le> T + (int (length ws) - 2)"
    and "sum_list (zoomSizes W ws a p) = A"
    and "\<forall>i<length ws. i \<noteq> a \<longrightarrow> 0 \<le> zoomSizes W ws a p ! i \<and> zoomSizes W ws a p ! i \<le> A - T"
    and "50 \<le> p \<longrightarrow> (\<forall>i<length ws. zoomSizes W ws a p ! i \<le> zoomSizes W ws a p ! a + 1)"
proof -
  define n where "n = int (length ws)"
  define R where "R = A - T"
  define other where "other = sum_list (take a ws) + sum_list (drop (Suc a) ws)"
  define g where "g = siblingShare other R n"
  define S where "S = sum_list (map g (take a ws @ drop (Suc a) ws))"
  define zs where "zs = zoomSizes W ws a p"
  have n2': "2 \<le> n" using n2 by (simp add: n_def)
  note cl = zoomSizes_closed[OF a small n2' W[folded n_def] p n_def A[folded n_def] T R_def
      other_def S_def[unfolded g_def]]
  have zs: "zs = map g (take a ws) @ [T + (R - S)] @ map g (drop (Suc a) ws)"
    using cl(1) by (simp add: zs_def g_def)
  have d: "0 \<le> R - S" "R - S \<le> n - 2" and T0: "0 \<le> T" and TA: "T \<le> A" and A0: "0 \<le> A"
    using cl by simp_all
  have la: "length (map g (take a ws)) = a" using a by simp
  show len: "length (zoomSizes W ws a p) = length ws"
    using a by (simp add: zs[unfolded zs_def])
  have za: "zs ! a = T + (R - S)" using la by (simp add: zs nth_append)
  show "T \<le> zoomSizes W ws a p ! a" using za d by (simp add: zs_def)
  show "zoomSizes W ws a p ! a \<le> T + (int (length ws) - 2)"
    using za d by (simp add: zs_def n_def)
  have "sum_list zs = S + T + (R - S)" by (simp add: zs S_def)
  then show "sum_list (zoomSizes W ws a p) = A" by (simp add: zs_def R_def)
  have R0: "0 \<le> R" using TA by (simp add: R_def)
  have nn: "list_all (\<lambda>v. 0 \<le> v) (map g (take a ws @ drop (Suc a) ws))"
    using small siblingShare_nonneg[OF _ R0 n2']
    by (auto simp: g_def list_all_iff dest!: in_set_takeD in_set_dropD)
  have sib: "0 \<le> zs ! i \<and> zs ! i \<le> A - T" if i: "i < length ws" "i \<noteq> a" for i
  proof -
    have "zs ! i \<in> set (map g (take a ws @ drop (Suc a) ws))"
    proof (cases "i < a")
      case True
      then have "zs ! i = map g (take a ws) ! i" using la by (simp add: zs nth_append)
      moreover have "i < length (map g (take a ws))" using True la by simp
      ultimately show ?thesis by (metis map_append nth_mem set_append UnI1)
    next
      case False
      then have gt: "a < i" using i by simp
      then have "zs ! i = map g (drop (Suc a) ws) ! (i - Suc a)"
        using la by (simp add: zs nth_append nth_Cons')
      moreover have "i - Suc a < length (map g (drop (Suc a) ws))" using gt i by simp
      ultimately show ?thesis by (metis map_append nth_mem set_append UnI2)
    qed
    then have "0 \<le> zs ! i" and "zs ! i \<le> S"
      using nn elem_le_sum_list[OF nn] by (auto simp: list_all_iff S_def)
    then show ?thesis using d by (simp add: R_def)
  qed
  then show "\<forall>i<length ws. i \<noteq> a \<longrightarrow> 0 \<le> zoomSizes W ws a p ! i \<and> zoomSizes W ws a p ! i \<le> A - T"
    by (simp add: zs_def)
  show "50 \<le> p \<longrightarrow> (\<forall>i<length ws. zoomSizes W ws a p ! i \<le> zoomSizes W ws a p ! a + 1)"
  proof (intro impI allI)
    fix i
    assume p50: "50 \<le> p" and i: "i < length ws"
    have "A * 50 \<le> A * p" using A0 p50 by (intro mult_left_mono) auto
    then have "A * 50 div 100 \<le> A * p div 100" by (intro zdiv_mono1) auto
    moreover have "A * 50 div 100 = A div 2" by simp
    ultimately have "A div 2 \<le> T" by (simp add: T)
    moreover have "A = 2 * (A div 2) + A mod 2" by simp
    moreover have "A mod 2 \<le> 1" by simp
    ultimately have half: "A - T \<le> T + 1" by linarith
    show "zoomSizes W ws a p ! i \<le> zoomSizes W ws a p ! a + 1"
    proof (cases "i = a")
      case True
      then show ?thesis by simp
    next
      case False
      then have "zs ! i \<le> A - T" using sib i by blast
      then show ?thesis using half za d by (simp add: zs_def)
    qed
  qed
qed

lemma updateChildWidths_fields:
  "Width (updateChildWidths c w) = w \<and> Height (updateChildWidths c w) = Height c"
  by (cases c) simp

lemma updateChildHeights_fields:
  "Height (updateChildHeights c h) = h \<and> Width (updateChildHeights c h) = Width c"
  by (cases c) simp

lemma placeWidths_sizes:
  "length nws = length cs \<Longrightarrow> map Width (placeWidths cs nws cur) = nws"
proof (induction cs nws cur rule: placeWidths.induct)
  case (1 w h x y pid st cs rest nw nws currentX)
  then show ?case
    by (simp add: updateChildWidths_fields del: updateChildWidths.simps)
qed simp_all

lemma placeHeights_sizes:
  "length nhs = length cs \<Longrightarrow> map Height (placeHeights cs nhs cur) = nhs"
proof (induction cs nhs cur rule: placeHeights.induct)
  case (1 w h x y pid st cs rest nh nhs currentY)
  then show ?case
    by (simp add: updateChildHeights_fields del: updateChildHeights.simps)
qed simp_all

lemma zoomBySplit_own: "Width (zoomBySplit c j p) = Width c \<and> Height (zoomBySplit c j p) = Height c"
  by (cases c) (simp add: zoomBySplit_def)

lemma applyNestedZoom_own:
  "Width (applyNestedZoom t q p) = Width t \<and> Height (applyNestedZoom t q p) = Height t"
  by (subst (1 2) applyNestedZoom.simps) (simp add: Let_def split: option.splits)

lemma applyNestedZoom_child_sizes:
  "map Width (Children (applyNestedZoom t q p)) = map Width (Children t)
   \<and> map Height (Children (applyNestedZoom t q p)) = map Height (Children t)"
proof (cases "findActive (Children t) q 0")
  case None
  then show ?thesis by (subst (1 2) applyNestedZoom.simps) simp
next
  case (Some i)
  have i: "i < length (Children t)" using findActive_range[OF Some] by simp
  have upd: "map f ((Children t)[i := c']) = map f (Children t)"
    if "f c' = f (Children t ! i)" for f :: "LayoutNode \<Rightarrow> int" and c'
    using that i by (simp add: map_update list_update_same_conv)
  show ?thesis
    by (subst (1 2) applyNestedZoom.simps)
      (simp add: Some Let_def upd applyNestedZoom_own zoomBySplit_own split: option.splits)
qed

lemma root_zoom_sizes:
  assumes st: "SplitType root = SplitHorizontal \<or> SplitType root = SplitVertical"
    and f: "findActive (Children root) q 0 = Some a"
    and n2: "2 \<le> length (Children root)"
    and len: "length (zoomSizes (axisSize root root) (map (axisSize root) (Children root)) a p)
               = length (Children root)"
  shows "map (axisSize root) (Children (zoomTransform root q p))
           = zoomSizes (axisSize root root) (map (axisSize root) (Children root)) a p"
proof -
  obtain w h x y pid sp cs where root: "root = LayoutNode w h x y pid sp cs" by (cases root)
  have n2': "\<not> length cs \<le> 1" using n2 root by simp
  have f': "findActive cs q 0 = Some a" using f root by simp
  show ?thesis
  proof (cases "sp = SplitHorizontal")
    case True
    have ax: "axisSize root = Width" by (rule ext) (simp add: axisSize_def root True)
    have len': "length (zoomSizes w (map Width cs) a p) = length cs"
      using len unfolding ax by (simp add: root)
    have "map Width (Children (ApplyZoomToLayout root q p)) = zoomSizes w (map Width cs) a p"
      using f' len' n2'
      by (simp add: ApplyZoomToLayout_def copyLayoutNode_id zoomBySplit_def root True
          placeWidths_sizes)
    then have "map Width (Children (zoomTransform root q p))
        = zoomSizes (Width root) (map Width (Children root)) a p"
      by (simp add: zoomTransform_def applyNestedZoom_child_sizes root)
    then show ?thesis unfolding ax .
  next
    case False
    then have V: "sp = SplitVertical" using st root by simp
    have ax: "axisSize root = Height" by (rule ext) (simp add: axisSize_def root V)
    have len': "length (zoomSizes h (map Height cs) a p) = length cs"
      using len unfolding ax by (simp add: root)
    have "map Height (Children (ApplyZoomToLayout root q p)) = zoomSizes h (map Height cs) a p"
      using f' len' n2'
      by (simp add: ApplyZoomToLayout_def copyLayoutNode_id zoomBySplit_def root V
          placeHeights_sizes)
    then have "map Height (Children (zoomTransform root q p))
        = zoomSizes (Height root) (map Height (Children root)) a p"
      by (simp add: zoomTransform_def applyNestedZoom_child_sizes root)
    then show ?thesis unfolding ax .
  qed
qed

text \<open>
  C7 (amended). Let the root be a split with at least two children, let the target pane be
  in child \<open>a\<close>, let the sizes along the root's split axis be non-negative and below
  \<open>2^31\<close>, the root at least as large as its borders, and the percent between 0 and 100.
  With \<open>A\<close> the node size minus one border per gap and \<open>T = floor(A * p / 100)\<close>: after
  the zoom transform the target child's size is \<open>T\<close> plus a rounding adjustment between 0
  and the number of children minus 2; the children's sizes and the borders add up to the
  root's size; every sibling's size is between 0 and \<open>A - T\<close>; and for \<open>p \<ge> 50\<close> no
  sibling is more than one cell larger than the target child.
\<close>

theorem target_share:
  assumes st: "SplitType root = SplitHorizontal \<or> SplitType root = SplitVertical"
    and f: "findActive (Children root) q 0 = Some a"
    and n2: "2 \<le> length (Children root)"
    and small: "list_all (\<lambda>c. 0 \<le> axisSize root c \<and> axisSize root c < 2 ^ 31) (Children root)"
    and W: "int (length (Children root)) - 1 \<le> axisSize root root" "axisSize root root < 2 ^ 31"
    and p: "0 \<le> p" "p \<le> 100"
    and A: "A = available (axisSize root root) (length (Children root))"
    and T: "T = A * p div 100"
    and z: "zs = map (axisSize root) (Children (zoomTransform root q p))"
  shows "length zs = length (Children root)
    \<and> T \<le> zs ! a \<and> zs ! a \<le> T + (int (length (Children root)) - 2)
    \<and> sum_list zs + (int (length (Children root)) - 1) = axisSize root root
    \<and> (\<forall>i<length (Children root). i \<noteq> a \<longrightarrow> 0 \<le> zs ! i \<and> zs ! i \<le> A - T)
    \<and> (50 \<le> p \<longrightarrow> (\<forall>i<length (Children root). zs ! i \<le> zs ! a + 1))"
proof -
  define ws where "ws = map (axisSize root) (Children root)"
  have a: "a < length ws" using findActive_range[OF f] by (simp add: ws_def)
  have small': "list_all (\<lambda>w. 0 \<le> w \<and> w < 2 ^ 31) ws"
    using small by (simp add: ws_def list_all_iff)
  have n2': "2 \<le> length ws" using n2 by (simp add: ws_def)
  have W': "int (length ws) - 1 \<le> axisSize root root" using W by (simp add: ws_def)
  have A': "A = axisSize root root - (int (length ws) - 1)" by (simp add: A available_def ws_def)
  note pr = zoomSizes_props[OF a small' n2' W' W(2) p A' T]
  have len: "length (zoomSizes (axisSize root root) (map (axisSize root) (Children root)) a p)
      = length (Children root)"
    using pr(1) by (simp add: ws_def)
  have "zs = zoomSizes (axisSize root root) ws a p"
    unfolding z ws_def using st f n2 len by (rule root_zoom_sizes)
  then show ?thesis using pr by (simp add: ws_def A')
qed

theorem target_share_witness:
  "SplitType exampleTree = SplitHorizontal
   \<and> findActive (Children exampleTree) 26 0 = Some 0
   \<and> 2 \<le> length (Children exampleTree)
   \<and> list_all (\<lambda>c. 0 \<le> axisSize exampleTree c \<and> axisSize exampleTree c < 2 ^ 31)
        (Children exampleTree)
   \<and> int (length (Children exampleTree)) - 1 \<le> axisSize exampleTree exampleTree
   \<and> axisSize exampleTree exampleTree < 2 ^ 31
   \<and> 253 = available (axisSize exampleTree exampleTree) (length (Children exampleTree))
   \<and> (164::int) = 253 * 65 div 100
   \<and> [165, 44, 44 :: int] = map (axisSize exampleTree) (Children (zoomTransform exampleTree 26 65))
   \<and> (length [165, 44, 44 :: int] = length (Children exampleTree)
    \<and> 164 \<le> [165, 44, 44 :: int] ! 0
    \<and> [165, 44, 44 :: int] ! 0 \<le> 164 + (int (length (Children exampleTree)) - 2)
    \<and> sum_list [165, 44, 44 :: int] + (int (length (Children exampleTree)) - 1)
          = axisSize exampleTree exampleTree
    \<and> (1::nat) < length (Children exampleTree) \<and> (1::nat) \<noteq> 0
    \<and> 0 \<le> [165, 44, 44 :: int] ! 1 \<and> [165, 44, 44 :: int] ! 1 \<le> 253 - 164
    \<and> (50::int) \<le> 65
    \<and> [165, 44, 44 :: int] ! 1 \<le> [165, 44, 44 :: int] ! 0 + 1)"
proof -
  have st': "SplitType exampleTree = SplitHorizontal" by (simp add: exampleTree_def)
  then have st: "SplitType exampleTree = SplitHorizontal \<or> SplitType exampleTree = SplitVertical"
    by simp
  have f: "findActive (Children exampleTree) 26 0 = Some 0" by (simp add: exampleTree_def)
  have n2: "2 \<le> length (Children exampleTree)" by (simp add: exampleTree_def)
  have small: "list_all (\<lambda>c. 0 \<le> axisSize exampleTree c \<and> axisSize exampleTree c < 2 ^ 31)
      (Children exampleTree)"
    by (simp add: exampleTree_def axisSize_def)
  have W: "int (length (Children exampleTree)) - 1 \<le> axisSize exampleTree exampleTree"
    "axisSize exampleTree exampleTree < 2 ^ 31"
    by (simp_all add: exampleTree_def axisSize_def)
  have p: "(0::int) \<le> 65" "(65::int) \<le> 100" by simp_all
  have A: "253 = available (axisSize exampleTree exampleTree) (length (Children exampleTree))"
    by (simp add: exampleTree_def axisSize_def available_def)
  have T: "(164::int) = 253 * 65 div 100" by simp
  have z: "[165, 44, 44] = map (axisSize exampleTree) (Children (zoomTransform exampleTree 26 65))"
    by code_simp
  note t = target_share[OF st f n2 small W p A T z]
  have one: "(1::nat) < length (Children exampleTree)" "(1::nat) \<noteq> 0"
    using n2 by simp_all
  have p50: "(50::int) \<le> 65" by simp
  have t1: "length [165, 44, 44 :: int] = length (Children exampleTree)"
    and t2: "164 \<le> [165, 44, 44 :: int] ! 0"
    and t3: "[165, 44, 44 :: int] ! 0 \<le> 164 + (int (length (Children exampleTree)) - 2)"
    and t4: "sum_list [165, 44, 44 :: int] + (int (length (Children exampleTree)) - 1)
          = axisSize exampleTree exampleTree"
    and t5: "0 \<le> [165, 44, 44 :: int] ! 1 \<and> [165, 44, 44 :: int] ! 1 \<le> 253 - 164"
    and t6: "[165, 44, 44 :: int] ! 1 \<le> [165, 44, 44 :: int] ! 0 + 1"
    using t one p50 by blast+
  show ?thesis
    by (rule conjI[OF st' conjI[OF f conjI[OF n2 conjI[OF small conjI[OF W(1) conjI[OF W(2)
        conjI[OF A conjI[OF T conjI[OF z conjI[OF t1 conjI[OF t2 conjI[OF t3 conjI[OF t4
        conjI[OF one(1) conjI[OF one(2) conjI[OF conjunct1[OF t5] conjI[OF conjunct2[OF t5]
        conjI[OF p50 t6]]]]]]]]]]]]]]]]]])
qed

text \<open>
  C7 as stated fails: with two children and 50 percent the target child gets 1 cell of 3
  and its sibling 2; with three children of widths 1, 100 and 1 and 34 percent the target
  child gets 35 cells and a sibling 67.
\<close>

theorem target_dominance_counterexample:
  "findActive (Children (LayoutNode 4 5 0 0 (- 1) SplitHorizontal
        [LayoutNode 1 5 0 0 1 SplitNone [], LayoutNode 2 5 2 0 2 SplitNone []])) 1 0 = Some 0
   \<and> (100::int) div 2 \<le> 50
   \<and> map Width (Children (zoomTransform (LayoutNode 4 5 0 0 (- 1) SplitHorizontal
        [LayoutNode 1 5 0 0 1 SplitNone [], LayoutNode 2 5 2 0 2 SplitNone []]) 1 50)) = [1, 2]
   \<and> findActive (Children (LayoutNode 104 5 0 0 (- 1) SplitHorizontal
        [LayoutNode 1 5 0 0 1 SplitNone [], LayoutNode 100 5 2 0 2 SplitNone [],
         LayoutNode 1 5 103 0 3 SplitNone []])) 1 0 = Some 0
   \<and> (100::int) div 3 \<le> 34
   \<and> map Width (Children (zoomTransform (LayoutNode 104 5 0 0 (- 1) SplitHorizontal
        [LayoutNode 1 5 0 0 1 SplitNone [], LayoutNode 100 5 2 0 2 SplitNone [],
         LayoutNode 1 5 103 0 3 SplitNone []]) 1 34)) = [35, 67, 0]"
  by code_simp

end
